theory Spec2Isabelle
  imports Complex_Main "HOL-Library.Log_Nat" "HOL-Library.Word"
begin

section \<open>JavaScript numbers\<close>

text \<open>
  The pixel arithmetic of \<^verbatim>\<open>src/lib/image-processor.mjs\<close> is done on JavaScript numbers,
  that is IEEE 754 binary64 values.  A finite binary64 value is a rational number, so a
  \<open>double\<close> is modelled as a \<open>rat\<close>, and every arithmetic operation is the exact
  operation followed by \<open>fl\<close>, the rounding to the nearest value with a 53-bit
  significand, ties to the even significand.  The exponent is not bounded: the values
  the program computes are below \<open>2\<^sup>1\<^sup>5\<close> in magnitude and, when not zero, come from
  a few operations on bytes and on candidates between 0.01 and 1, far from overflow and
  from the subnormal range, where binary64 rounds differently.  Neither \<^verbatim>\<open>NaN\<close> nor an
  infinite value arises: the extraction divides by 255 and by a candidate, which is at
  least 0.01, the fit by widths and heights, which are positive, and \<^verbatim>\<open>Infinity\<close>, the
  initial best error, has a type of its own below.
\<close>

type_synonym double = rat

definition pow2 :: "int \<Rightarrow> rat" where
  "pow2 e = (if 0 \<le> e then 2 ^ nat e else 1 / 2 ^ nat (- e))"

definition round_half_even :: "rat \<Rightarrow> int" where
  "round_half_even x =
     (let f = \<lfloor>x\<rfloor>; d = x - of_int f
      in if d < 1 / 2 then f else if 1 / 2 < d then f + 1
         else if even f then f else f + 1)"

text \<open>\<open>ilog2 x\<close> is the binary exponent of a positive \<open>x\<close>: \<open>2\<^bsup>ilog2 x\<^esup> \<le> x < 2\<^bsup>ilog2 x + 1\<^esup>\<close>.\<close>

definition ilog2 :: "rat \<Rightarrow> int" where
  "ilog2 x = (if 1 \<le> x then bitlen \<lfloor>x\<rfloor> - 1 else - bitlen (\<lceil>1 / x\<rceil> - 1))"

definition fl_pos :: "rat \<Rightarrow> rat" where
  "fl_pos x = (let e = ilog2 x - 52 in of_int (round_half_even (x / pow2 e)) * pow2 e)"

definition fl :: "rat \<Rightarrow> double" where
  "fl x = (if x = 0 then 0 else if 0 < x then fl_pos x else - fl_pos (- x))"

definition fadd :: "double \<Rightarrow> double \<Rightarrow> double" where
  "fadd x y = fl (x + y)"

definition fsub :: "double \<Rightarrow> double \<Rightarrow> double" where
  "fsub x y = fl (x - y)"

definition fmul :: "double \<Rightarrow> double \<Rightarrow> double" where
  "fmul x y = fl (x * y)"

definition fdiv :: "double \<Rightarrow> double \<Rightarrow> double" where
  "fdiv x y = fl (x / y)"

text \<open>\<^verbatim>\<open>Math.round\<close>: the nearest integer, a tie going up.\<close>

definition js_round :: "double \<Rightarrow> int" where
  "js_round x = \<lfloor>x + 1 / 2\<rfloor>"

text \<open>The decimal literals \<^verbatim>\<open>0.01\<close> and \<^verbatim>\<open>0.1\<close> denote the nearest binary64 values.\<close>

definition lit_0_01 :: double where
  "lit_0_01 = fl (1 / 100)"

definition lit_0_1 :: double where
  "lit_0_1 = fl (1 / 10)"

subsection \<open>Rounding computed on integers\<close>

text \<open>
  A dyadic number \<open>dy m e = m \<sqdot> 2\<^bsup>e\<^esup>\<close>, and the rounding of \<open>n / d \<sqdot> 2\<^bsup>s\<^esup>\<close> computed with
  integer division only.  These are not part of the model: they are proved equal to
  \<open>fl\<close> below and serve to evaluate it on concrete pixels.
\<close>

definition dy :: "int \<Rightarrow> int \<Rightarrow> rat" where
  "dy m e = of_int m * pow2 e"

definition rne_div :: "int \<Rightarrow> int \<Rightarrow> int" where
  "rne_div a b =
     (let q = a div b; r = a - q * b
      in if 2 * r < b then q else if b < 2 * r then q + 1
         else if even q then q else q + 1)"

definition ilog2_ratio :: "int \<Rightarrow> int \<Rightarrow> int" where
  "ilog2_ratio n d = (if d \<le> n then bitlen (n div d) - 1 else - bitlen ((d - 1) div n))"

definition rnd_ratio_pos :: "int \<Rightarrow> int \<Rightarrow> int \<Rightarrow> int \<times> int" where
  "rnd_ratio_pos n d s =
     (let l = ilog2_ratio n d - 52
      in (if 0 \<le> l then rne_div n (d * 2 ^ nat l) else rne_div (n * 2 ^ nat (- l)) d, l + s))"

definition rnd_ratio :: "int \<Rightarrow> int \<Rightarrow> int \<Rightarrow> int \<times> int" where
  "rnd_ratio n d s =
     (if n = 0 then (0, 0)
      else if 0 < n then rnd_ratio_pos n d s
      else (- fst (rnd_ratio_pos (- n) d s), snd (rnd_ratio_pos (- n) d s)))"

section \<open>Raster buffers\<close>

text \<open>
  \<^verbatim>\<open>sharp(path).ensureAlpha().raw().toBuffer()\<close> hands the extractor the decoded image: its
  metadata (\<open>width\<close>, \<open>height\<close>) and a flat buffer of \<open>width \<sqdot> height \<sqdot> 4\<close> bytes, four
  channels R, G, B, A per pixel, row-major.  \<open>wf_raster\<close> is that length guarantee.
\<close>

type_synonym byte = "8 word"

type_synonym pixel = "byte \<times> byte \<times> byte \<times> byte"

record raster =
  width :: nat
  height :: nat
  data :: "byte list"

definition wf_raster :: "raster \<Rightarrow> bool" where
  "wf_raster r = (length (data r) = width r * height r * 4)"

definition pixel_at :: "byte list \<Rightarrow> nat \<Rightarrow> pixel" where
  "pixel_at buf k = (buf ! (4 * k), buf ! (4 * k + 1), buf ! (4 * k + 2), buf ! (4 * k + 3))"

section \<open>extractForeground\<close>

definition threshold :: int where
  "threshold = 5"

definition alphaStep :: double where
  "alphaStep = lit_0_01"

text \<open>\<^verbatim>\<open>bestError\<close> starts as \<^verbatim>\<open>Infinity\<close>.\<close>

datatype best_error = Infinity | Finite double

fun error_less :: "double \<Rightarrow> best_error \<Rightarrow> bool" where
  "error_less e Infinity = True"
| "error_less e (Finite b) = (e < b)"

fun error_greater :: "best_error \<Rightarrow> double \<Rightarrow> bool" where
  "error_greater Infinity c = True"
| "error_greater (Finite b) c = (c < b)"

record scan_state =
  bestAlpha :: double
  bestError :: best_error
  bestFgR :: int
  bestFgG :: int
  bestFgB :: int

fun maxDiff :: "pixel \<Rightarrow> pixel \<Rightarrow> int" where
  "maxDiff (fullR, fullG, fullB, fullA) (bgR, bgG, bgB, bgA) =
     (let diffR = \<bar>uint fullR - uint bgR\<bar>;
          diffG = \<bar>uint fullG - uint bgG\<bar>;
          diffB = \<bar>uint fullB - uint bgB\<bar>;
          diffA = \<bar>uint fullA - uint bgA\<bar>
      in max (max (max diffR diffG) diffB) diffA)"

fun maxAbsDiff :: "pixel \<Rightarrow> pixel \<Rightarrow> int" where
  "maxAbsDiff (fullR, fullG, fullB, fullA) (bgR, bgG, bgB, bgA) =
     (let signedDiffR = uint fullR - uint bgR;
          signedDiffG = uint fullG - uint bgG;
          signedDiffB = uint fullB - uint bgB
      in max (max \<bar>signedDiffR\<bar> \<bar>signedDiffG\<bar>) \<bar>signedDiffB\<bar>)"

definition minAlpha :: "int \<Rightarrow> double" where
  "minAlpha mad = fdiv (of_int mad) 255"

definition scan_start :: "int \<Rightarrow> double" where
  "scan_start mad = max lit_0_01 (minAlpha mad)"

definition scan_init :: "double \<Rightarrow> scan_state" where
  "scan_init a = \<lparr>bestAlpha = a, bestError = Infinity, bestFgR = 0, bestFgG = 0, bestFgB = 0\<rparr>"

text \<open>One channel of one candidate: lines 103 to 121 of the source.\<close>

definition testFg :: "int \<Rightarrow> int \<Rightarrow> double \<Rightarrow> double" where
  "testFg full bg testAlpha =
     fdiv (fsub (of_int full) (fmul (fsub 1 testAlpha) (of_int bg))) testAlpha"

definition clampedFg :: "int \<Rightarrow> int \<Rightarrow> double \<Rightarrow> int" where
  "clampedFg full bg testAlpha = max 0 (min 255 (js_round (testFg full bg testAlpha)))"

definition recomposed :: "int \<Rightarrow> int \<Rightarrow> double \<Rightarrow> double" where
  "recomposed clamped bg testAlpha =
     fadd (fmul testAlpha (of_int clamped)) (fmul (fsub 1 testAlpha) (of_int bg))"

definition channel_error :: "int \<Rightarrow> int \<Rightarrow> double \<Rightarrow> double" where
  "channel_error full bg testAlpha =
     \<bar>fsub (recomposed (clampedFg full bg testAlpha) bg testAlpha) (of_int full)\<bar>"

definition recon_error :: "int \<Rightarrow> int \<Rightarrow> int \<Rightarrow> int \<Rightarrow> int \<Rightarrow> int \<Rightarrow> double \<Rightarrow> double" where
  "recon_error fullR fullG fullB bgR bgG bgB testAlpha =
     fadd (fadd (channel_error fullR bgR testAlpha) (channel_error fullG bgG testAlpha))
          (channel_error fullB bgB testAlpha)"

definition candidate :: "int \<Rightarrow> int \<Rightarrow> int \<Rightarrow> int \<Rightarrow> int \<Rightarrow> int \<Rightarrow> double \<Rightarrow> scan_state" where
  "candidate fullR fullG fullB bgR bgG bgB testAlpha =
     \<lparr>bestAlpha = testAlpha,
      bestError = Finite (recon_error fullR fullG fullB bgR bgG bgB testAlpha),
      bestFgR = clampedFg fullR bgR testAlpha,
      bestFgG = clampedFg fullG bgG testAlpha,
      bestFgB = clampedFg fullB bgB testAlpha\<rparr>"

text \<open>
  The update of the best candidate (lines 123 to 129) and the loop (line 100, the error
  of lines 101 to 121 and the early exit of line 132).  The loop is written as the
  source has it, with the condition \<^verbatim>\<open>testAlpha <= 1.0\<close> alone; a run that never leaves
  the loop is the value \<open>None\<close>.
\<close>

definition scan_step ::
  "int \<Rightarrow> int \<Rightarrow> int \<Rightarrow> int \<Rightarrow> int \<Rightarrow> int \<Rightarrow> double \<Rightarrow> double \<Rightarrow> scan_state \<Rightarrow> scan_state" where
  "scan_step fullR fullG fullB bgR bgG bgB testAlpha err st =
     (if error_less err (bestError st)
      then \<lparr>bestAlpha = testAlpha, bestError = Finite err,
            bestFgR = clampedFg fullR bgR testAlpha,
            bestFgG = clampedFg fullG bgG testAlpha,
            bestFgB = clampedFg fullB bgB testAlpha\<rparr>
      else st)"

partial_function (option) alpha_scan ::
  "int \<Rightarrow> int \<Rightarrow> int \<Rightarrow> int \<Rightarrow> int \<Rightarrow> int \<Rightarrow> double \<Rightarrow> scan_state \<Rightarrow> scan_state option" where
  "alpha_scan fullR fullG fullB bgR bgG bgB testAlpha st =
     (if testAlpha \<le> 1 then
        (let err = recon_error fullR fullG fullB bgR bgG bgB testAlpha;
             st' = scan_step fullR fullG fullB bgR bgG bgB testAlpha err st
         in if err < lit_0_1 then Some st'
            else alpha_scan fullR fullG fullB bgR bgG bgB (fadd testAlpha alphaStep) st')
      else Some st)"

text \<open>Lines 136 to 146: noise rejection, or the best candidate becomes the pixel.\<close>

definition emit_pixel :: "scan_state \<Rightarrow> int \<Rightarrow> pixel" where
  "emit_pixel st mad =
     (if error_greater (bestError st) 30 \<and> mad < 15 then (0, 0, 0, 0)
      else (word_of_int (bestFgR st), word_of_int (bestFgG st), word_of_int (bestFgB st),
            word_of_int (js_round (fmul (bestAlpha st) 255))))"

fun scan_pixel :: "pixel \<Rightarrow> pixel \<Rightarrow> scan_state option" where
  "scan_pixel (fullR, fullG, fullB, fullA) (bgR, bgG, bgB, bgA) =
     alpha_scan (uint fullR) (uint fullG) (uint fullB) (uint bgR) (uint bgG) (uint bgB)
       (scan_start (maxAbsDiff (fullR, fullG, fullB, fullA) (bgR, bgG, bgB, bgA)))
       (scan_init (scan_start (maxAbsDiff (fullR, fullG, fullB, fullA) (bgR, bgG, bgB, bgA))))"

text \<open>The body of the pixel loop, lines 49 to 147.\<close>

definition extract_pixel :: "pixel \<Rightarrow> pixel \<Rightarrow> pixel option" where
  "extract_pixel full bg =
     (if maxDiff full bg < threshold then Some (0, 0, 0, 0)
      else (case scan_pixel full bg of
              None \<Rightarrow> None
            | Some st \<Rightarrow> Some (emit_pixel st (maxAbsDiff full bg))))"

text \<open>
  The pixel loop, line 48.  A write past the end of a \<^verbatim>\<open>Buffer\<close> is ignored, as a list
  update past the end is.  The reads are within both buffers whenever they are well
  formed and of equal dimensions, which is what the theorems below assume.
\<close>

fun write_pixel :: "byte list \<Rightarrow> nat \<Rightarrow> pixel \<Rightarrow> byte list" where
  "write_pixel outputBuffer i (r, g, b, a) =
     outputBuffer[i := r, i + 1 := g, i + 2 := b, i + 3 := a]"

function pixel_loop :: "byte list \<Rightarrow> byte list \<Rightarrow> nat \<Rightarrow> byte list \<Rightarrow> byte list option" where
  "pixel_loop fullBuffer bgBuffer i outputBuffer =
     (if i < length fullBuffer then
        (case extract_pixel
                (fullBuffer ! i, fullBuffer ! (i + 1), fullBuffer ! (i + 2), fullBuffer ! (i + 3))
                (bgBuffer ! i, bgBuffer ! (i + 1), bgBuffer ! (i + 2), bgBuffer ! (i + 3)) of
           None \<Rightarrow> None
         | Some p \<Rightarrow> pixel_loop fullBuffer bgBuffer (i + 4) (write_pixel outputBuffer i p))
      else Some outputBuffer)"
  by pat_completeness auto
termination
  by (relation "measure (\<lambda>(fullBuffer, bgBuffer, i, outputBuffer). length fullBuffer - i)") auto

text \<open>The error thrown at line 31; its message carries the four dimensions.\<close>

datatype error = SizeMismatch nat nat nat nat

definition extractForeground :: "raster \<Rightarrow> raster \<Rightarrow> (error + raster) option" where
  "extractForeground full background =
     (if width full \<noteq> width background \<or> height full \<noteq> height background
      then Some (Inl (SizeMismatch (width full) (height full) (width background) (height background)))
      else (case pixel_loop (data full) (data background) 0
                   (replicate (width full * height full * 4) 0) of
              None \<Rightarrow> None
            | Some outputBuffer \<Rightarrow>
                Some (Inr \<lparr>width = width full, height = height full, data = outputBuffer\<rparr>)))"

declare pixel_loop.simps [simp del]

text \<open>The error of one channel in exact arithmetic, for the clamped colour the code chose.\<close>

definition exact_channel_error :: "int \<Rightarrow> int \<Rightarrow> double \<Rightarrow> rat" where
  "exact_channel_error f b \<alpha> =
     \<bar>\<alpha> * of_int (clampedFg f b \<alpha>) + (1 - \<alpha>) * of_int b - of_int f\<bar>"

section \<open>prepareForAndroidAdaptiveIcon\<close>

text \<open>
  The function computes a box and a placement from the width and height of the input
  image (lines 185 to 191), has \<^verbatim>\<open>sharp\<close> resize the image into the box with the option
  \<^verbatim>\<open>fit: 'inside'\<close> (line 203), and composites what the resize returns at \<open>(left, top)\<close>
  onto a transparent canvas of 432 by 432 pixels with four channels.  The width and
  height of an image are positive integers far below \<open>2\<^sup>5\<^sup>3\<close>, so they are binary64 values
  as they stand.
\<close>

definition ANDROID_LAYER_SIZE :: int where
  "ANDROID_LAYER_SIZE = 432"

definition ANDROID_SAFE_AREA :: int where
  "ANDROID_SAFE_AREA = 264"

text \<open>
  The resize of the library, \<^verbatim>\<open>image.resize(width, height, { fit: 'inside' })\<close>, on an image of
  \<open>inputWidth\<close> by \<open>inputHeight\<close> pixels, the box being \<open>boxWidth\<close> by \<open>boxHeight\<close>.  A
  width or height that is not a positive integer
  is refused with an error, the width first.  Otherwise the image keeps its aspect
  ratio and is made as large as fits inside the box: both axes shrink by the larger of
  the two ratios of input to box, no axis by more than its own length (so that none
  goes to zero), and each resulting length is rounded to the nearest integer.  The
  result here is the size of the resized image, which is all that the placement
  depends on; its pixels are the library's resampling.
\<close>

datatype library_error = InvalidParameter string int

definition resize_inside :: "nat \<Rightarrow> nat \<Rightarrow> int \<Rightarrow> int \<Rightarrow> library_error + int \<times> int" where
  "resize_inside inputWidth inputHeight boxWidth boxHeight =
     (if boxWidth \<le> 0 then Inl (InvalidParameter ''width'' boxWidth)
      else if boxHeight \<le> 0 then Inl (InvalidParameter ''height'' boxHeight)
      else
        (let hshrink = fdiv (of_nat inputWidth) (of_int boxWidth);
             vshrink = fdiv (of_nat inputHeight) (of_int boxHeight);
             shrink = max hshrink vshrink;
             hshrink = min shrink (of_nat inputWidth);
             vshrink = min shrink (of_nat inputHeight)
         in Inr (js_round (fdiv (of_nat inputWidth) hshrink),
                 js_round (fdiv (of_nat inputHeight) vshrink))))"

text \<open>
  What is composited: the canvas, the box that was asked of the resize
  (\<open>scaledWidth\<close> by \<open>scaledHeight\<close>), the size of the overlay that the resize returned, and
  the position of the overlay's top left corner.
\<close>

record composite =
  canvasWidth :: int
  canvasHeight :: int
  canvasChannels :: nat
  canvasBackground :: pixel
  scaledWidth :: int
  scaledHeight :: int
  overlayWidth :: int
  overlayHeight :: int
  left_px :: int
  top_px :: int

definition fit_scale :: "nat \<Rightarrow> nat \<Rightarrow> double" where
  "fit_scale w h =
     min (fdiv (of_int ANDROID_SAFE_AREA) (of_nat w)) (fdiv (of_int ANDROID_SAFE_AREA) (of_nat h))"

text \<open>The scale factor as the specification words it, in exact arithmetic.\<close>

definition fit_scale_exact :: "nat \<Rightarrow> nat \<Rightarrow> rat" where
  "fit_scale_exact w h = min (264 / of_nat w) (264 / of_nat h)"

definition center_offset :: "int \<Rightarrow> int" where
  "center_offset scaled = js_round (fdiv (fsub (of_int ANDROID_LAYER_SIZE) (of_int scaled)) 2)"

text \<open>
  Lines 175 to 209.  An error of the resize leaves the function as it is thrown: nothing
  is composited and no file is written.
\<close>

definition prepareForAndroidAdaptiveIcon :: "nat \<Rightarrow> nat \<Rightarrow> library_error + composite" where
  "prepareForAndroidAdaptiveIcon w h =
     (let scale = fit_scale w h;
          scaledWidth = js_round (fmul (of_nat w) scale);
          scaledHeight = js_round (fmul (of_nat h) scale);
          left = center_offset scaledWidth;
          top = center_offset scaledHeight
      in case resize_inside w h scaledWidth scaledHeight of
           Inl e \<Rightarrow> Inl e
         | Inr (resizedWidth, resizedHeight) \<Rightarrow>
             Inr \<lparr>canvasWidth = ANDROID_LAYER_SIZE, canvasHeight = ANDROID_LAYER_SIZE,
                  canvasChannels = 4, canvasBackground = (0, 0, 0, 0),
                  scaledWidth = scaledWidth, scaledHeight = scaledHeight,
                  overlayWidth = resizedWidth, overlayHeight = resizedHeight,
                  left_px = left, top_px = top\<rparr>)"

text \<open>The free columns to the right of the overlay, and the free rows below it.\<close>

definition right_margin :: "composite \<Rightarrow> int" where
  "right_margin c = canvasWidth c - (left_px c + overlayWidth c)"

definition bottom_margin :: "composite \<Rightarrow> int" where
  "bottom_margin c = canvasHeight c - (top_px c + overlayHeight c)"

section \<open>The scan as a sequence of candidates\<close>

text \<open>
  The candidates of a scan that starts at \<open>a\<close>: \<open>a\<close>, then each time the step is added
  (in binary64 arithmetic); and the state after the candidates \<open>0, \<dots>, k\<close> went through
  the loop body in turn.
\<close>

definition cand :: "double \<Rightarrow> nat \<Rightarrow> double" where
  "cand a n = ((\<lambda>t. fadd t alphaStep) ^^ n) a"

primrec scan_upto ::
  "int \<Rightarrow> int \<Rightarrow> int \<Rightarrow> int \<Rightarrow> int \<Rightarrow> int \<Rightarrow> double \<Rightarrow> scan_state \<Rightarrow> nat \<Rightarrow> scan_state" where
  "scan_upto fullR fullG fullB bgR bgG bgB a st 0 =
     scan_step fullR fullG fullB bgR bgG bgB a (recon_error fullR fullG fullB bgR bgG bgB a) st"
| "scan_upto fullR fullG fullB bgR bgG bgB a st (Suc k) =
     scan_step fullR fullG fullB bgR bgG bgB (cand a (Suc k))
       (recon_error fullR fullG fullB bgR bgG bgB (cand a (Suc k)))
       (scan_upto fullR fullG fullB bgR bgG bgB a st k)"

section \<open>Properties of the rounding\<close>

lemma pow2_powi: "pow2 e = 2 powi e"
  unfolding pow2_def power_int_def
  by (simp add: power_inverse inverse_eq_divide power_one_over)

lemma pow2_le_of_int: "2 ^ n \<le> (c::int) \<Longrightarrow> (2::rat) ^ n \<le> of_int c"
  by (metis of_int_le_iff of_int_numeral of_int_power)

lemma of_int_less_pow2: "(c::int) < 2 ^ n \<Longrightarrow> (of_int c :: rat) < 2 ^ n"
  by (metis of_int_less_iff of_int_numeral of_int_power)

lemma pow2_pos [simp]: "0 < pow2 e"
  by (simp add: pow2_powi)

lemma pow2_nz [simp]: "pow2 e \<noteq> 0"
  using pow2_pos[of e] by (simp del: pow2_pos)

lemma pow2_add: "pow2 (a + b) = pow2 a * pow2 b"
  by (simp add: pow2_powi power_int_add)

lemma pow2_diff: "pow2 (a - b) = pow2 a / pow2 b"
  by (simp add: pow2_powi power_int_diff)

lemma pow2_mono: "a \<le> b \<Longrightarrow> pow2 a \<le> pow2 b"
  by (simp add: pow2_powi power_int_increasing)

lemma pow2_nat: "pow2 (int n) = 2 ^ n"
  by (simp add: pow2_def)

lemma pow2_0 [simp]: "pow2 0 = 1"
  by (simp add: pow2_def)

lemma ilog2_bounds:
  assumes "0 < x"
  shows "pow2 (ilog2 x) \<le> x \<and> x < pow2 (ilog2 x + 1)"
proof (cases "1 \<le> x")
  case True
  define n where "n = \<lfloor>x\<rfloor>"
  have n1: "1 \<le> n" using True by (simp add: n_def le_floor_iff)
  then have n0: "0 < n" by simp
  have b: "2 ^ nat (bitlen n - 1) \<le> n" "n < 2 ^ nat (bitlen n)"
    using bitlen_bounds[OF n0] by auto
  have bl: "1 \<le> bitlen n" using n0 by (simp add: bitlen_alt_def)
  have il: "ilog2 x = bitlen n - 1" using True by (simp add: ilog2_def n_def)
  have nx: "of_int n \<le> x" "x < of_int n + 1" unfolding n_def by linarith+
  have p1: "pow2 (bitlen n - 1) = 2 ^ nat (bitlen n - 1)"
    using bl by (simp add: pow2_def)
  have p2: "pow2 (bitlen n) = 2 ^ nat (bitlen n)"
    using bl by (simp add: pow2_def)
  have lo: "pow2 (ilog2 x) \<le> x"
    unfolding il p1 by (rule order_trans[OF pow2_le_of_int[OF b(1)] nx(1)])
  have "n + 1 \<le> 2 ^ nat (bitlen n)" using b(2) by simp
  from pow2_le_of_int[of "nat (bitlen n)", of "2 ^ nat (bitlen n)"]
  have "(of_int (n + 1) :: rat) \<le> 2 ^ nat (bitlen n)"
    using \<open>n + 1 \<le> 2 ^ nat (bitlen n)\<close>
    by (metis of_int_le_iff of_int_numeral of_int_power)
  then have hi: "x < pow2 (ilog2 x + 1)"
    using nx(2) by (simp add: il p2)
  from lo hi show ?thesis by simp
next
  case False
  then have x1: "x < 1" by simp
  define y where "y = 1 / x"
  have y1: "1 < y" using assms x1 by (simp add: y_def)
  define c where "c = \<lceil>y\<rceil> - 1"
  have c0: "0 < c" using y1 by (simp add: c_def less_ceiling_iff)
  have cy: "of_int c < y" "y \<le> of_int c + 1"
    unfolding c_def using ceiling_correct[of y] by auto
  have b: "2 ^ nat (bitlen c - 1) \<le> c" "c < 2 ^ nat (bitlen c)"
    using bitlen_bounds[OF c0] by auto
  have bl: "1 \<le> bitlen c" using c0 by (simp add: bitlen_alt_def)
  have il: "ilog2 x = - bitlen c" using False by (simp add: ilog2_def c_def y_def)
  have p1: "pow2 (bitlen c) = 2 ^ nat (bitlen c)"
    using bl by (simp add: pow2_def)
  have p2: "pow2 (bitlen c - 1) = 2 ^ nat (bitlen c - 1)"
    using bl by (simp add: pow2_def)
  have "c + 1 \<le> 2 ^ nat (bitlen c)" using b(2) by simp
  then have "(of_int (c + 1) :: rat) \<le> 2 ^ nat (bitlen c)"
    by (metis of_int_le_iff of_int_numeral of_int_power)
  then have yle: "y \<le> pow2 (bitlen c)" using cy(2) p1 by simp
  have ygt: "pow2 (bitlen c - 1) < y"
    unfolding p2 by (rule le_less_trans[OF pow2_le_of_int[OF b(1)] cy(1)])
  have xy: "x = 1 / y" using assms by (simp add: y_def)
  have ypos: "0 < y" using y1 by simp
  have "pow2 (- bitlen c) = 1 / pow2 (bitlen c)"
    using pow2_diff[of 0 "bitlen c"] by simp
  also have "\<dots> \<le> 1 / y" using yle ypos by (simp add: frac_le)
  finally have lo: "pow2 (ilog2 x) \<le> x" unfolding il xy[symmetric] .
  have "1 / y < 1 / pow2 (bitlen c - 1)"
    using ygt by (simp add: frac_less2)
  also have "\<dots> = pow2 (- bitlen c + 1)"
    using pow2_diff[of 0 "bitlen c - 1"] by simp
  finally have hi: "x < pow2 (ilog2 x + 1)" unfolding il xy[symmetric] .
  from lo hi show ?thesis by simp
qed

lemma ilog2_unique:
  assumes "pow2 k \<le> x" "x < pow2 (k + 1)"
  shows "ilog2 x = k"
proof -
  have xp: "0 < x" using assms(1) pow2_pos[of k] by linarith
  note b = ilog2_bounds[OF xp]
  have "\<not> ilog2 x < k"
  proof
    assume "ilog2 x < k"
    then have "pow2 (ilog2 x + 1) \<le> pow2 k" by (intro pow2_mono) simp
    with b assms show False by linarith
  qed
  moreover have "\<not> k < ilog2 x"
  proof
    assume "k < ilog2 x"
    then have "pow2 (k + 1) \<le> pow2 (ilog2 x)" by (intro pow2_mono) simp
    with b assms show False by linarith
  qed
  ultimately show ?thesis by simp
qed

lemma ilog2_scale:
  assumes "0 < x"
  shows "ilog2 (x * pow2 s) = ilog2 x + s"
proof (rule ilog2_unique)
  note b = ilog2_bounds[OF assms]
  show "pow2 (ilog2 x + s) \<le> x * pow2 s"
    using b by (simp add: pow2_add)
  show "x * pow2 s < pow2 (ilog2 x + s + 1)"
    using b by (simp add: pow2_add)
qed

lemma round_half_even_bounds:
  "\<bar>of_int (round_half_even x) - x\<bar> \<le> 1 / 2"
proof -
  have "of_int \<lfloor>x\<rfloor> \<le> x" "x < of_int \<lfloor>x\<rfloor> + 1" by linarith+
  then show ?thesis
    unfolding round_half_even_def Let_def
    by (simp split: if_splits)
qed

lemma round_half_even_of_int [simp]: "round_half_even (of_int n) = n"
  by (simp add: round_half_even_def)

lemma fl_pos_error:
  assumes "0 < x"
  shows "\<bar>fl_pos x - x\<bar> \<le> x / 2 ^ 53"
proof -
  define e where "e = ilog2 x - 52"
  define m where "m = round_half_even (x / pow2 e)"
  have f: "fl_pos x = of_int m * pow2 e"
    by (simp add: fl_pos_def m_def e_def Let_def)
  have "\<bar>of_int m - x / pow2 e\<bar> \<le> 1 / 2"
    unfolding m_def by (rule round_half_even_bounds)
  then have "\<bar>of_int m - x / pow2 e\<bar> * pow2 e \<le> 1 / 2 * pow2 e"
    by (rule mult_right_mono) (rule less_imp_le[OF pow2_pos])
  moreover have "\<bar>of_int m - x / pow2 e\<bar> * pow2 e = \<bar>of_int m * pow2 e - x\<bar>"
  proof -
    have "\<bar>of_int m - x / pow2 e\<bar> * pow2 e = \<bar>(of_int m - x / pow2 e) * pow2 e\<bar>"
      using pow2_pos[of e] by (simp add: abs_mult abs_of_pos)
    also have "(of_int m - x / pow2 e) * pow2 e = of_int m * pow2 e - x"
      using pow2_pos[of e] by (simp add: field_simps)
    finally show ?thesis .
  qed
  ultimately have d: "\<bar>fl_pos x - x\<bar> \<le> pow2 e / 2" by (simp add: f)
  have "pow2 (ilog2 x) \<le> x" using ilog2_bounds[OF assms] by simp
  moreover have "pow2 (ilog2 x) = pow2 e * 2 ^ 52"
    using pow2_add[of e 52] by (simp add: e_def pow2_def)
  ultimately have "pow2 e * 2 ^ 52 \<le> x" by simp
  then have "pow2 e / 2 \<le> x / 2 ^ 53" by simp
  with d show ?thesis by linarith
qed

lemma fl_error: "\<bar>fl x - x\<bar> \<le> \<bar>x\<bar> / 2 ^ 53"
proof -
  consider "x = 0" | "0 < x" | "x < 0" by linarith
  then show ?thesis
  proof cases
    case 1 then show ?thesis by (simp add: fl_def)
  next
    case 2 then show ?thesis using fl_pos_error[of x] by (simp add: fl_def)
  next
    case 3
    then have "\<bar>fl_pos (- x) - (- x)\<bar> \<le> (- x) / 2 ^ 53"
      using fl_pos_error[of "- x"] by simp
    moreover have "fl x = - fl_pos (- x)" using 3 by (simp add: fl_def)
    ultimately show ?thesis using 3 by (simp add: abs_if split: if_splits)
  qed
qed

lemma round_half_even_ratio:
  assumes "0 < b"
  shows "round_half_even (of_int a / of_int b) = rne_div a b"
proof -
  have fl: "\<lfloor>(of_int a :: rat) / of_int b\<rfloor> = a div b"
    by (simp add: floor_divide_of_int_eq)
  have "(of_int a :: rat) = of_int (a div b * b + a mod b)" by simp
  also have "\<dots> = of_int (a div b) * of_int b + of_int (a mod b)"
    by (simp only: of_int_add of_int_mult)
  finally have d: "(of_int a :: rat) / of_int b - of_int (a div b) = of_int (a mod b) / of_int b"
    using assms by (simp add: field_simps)
  have bp: "(0::rat) < of_int b" using assms by simp
  have c1: "((of_int (a mod b) :: rat) / of_int b < 1 / 2) = (2 * (a mod b) < b)"
  proof -
    have "((of_int (a mod b) :: rat) / of_int b < 1 / 2) = ((of_int (2 * (a mod b)) :: rat) < of_int b)"
      using bp by (simp add: field_simps)
    also have "\<dots> = (2 * (a mod b) < b)" by (simp only: of_int_less_iff)
    finally show ?thesis .
  qed
  have c2: "(1 / 2 < (of_int (a mod b) :: rat) / of_int b) = (b < 2 * (a mod b))"
  proof -
    have "(1 / 2 < (of_int (a mod b) :: rat) / of_int b) = ((of_int b :: rat) < of_int (2 * (a mod b)))"
      using bp by (simp add: field_simps)
    also have "\<dots> = (b < 2 * (a mod b))" by (simp only: of_int_less_iff)
    finally show ?thesis .
  qed
  have r: "a - a div b * b = a mod b"
    by (simp add: minus_div_mult_eq_mod)
  show ?thesis
    unfolding round_half_even_def rne_div_def Let_def fl d c1 c2 r ..
qed

lemma ilog2_of_ratio:
  assumes "0 < n" "0 < d"
  shows "ilog2 (of_int n / of_int d) = ilog2_ratio n d"
proof -
  have np: "(0::rat) < of_int n" and dp: "(0::rat) < of_int d" using assms by simp_all
  have c: "(1 \<le> (of_int n :: rat) / of_int d) = (d \<le> n)"
    using dp by (simp add: field_simps)
  have f: "\<lfloor>(of_int n :: rat) / of_int d\<rfloor> = n div d"
    by (simp add: floor_divide_of_int_eq)
  have inv: "1 / ((of_int n :: rat) / of_int d) = of_int d / of_int n" by simp
  have "\<lceil>(of_int d :: rat) / of_int n\<rceil> = (d - 1) div n + 1"
  proof (rule ceiling_unique)
    define c where "c = (d - 1) div n"
    have e: "d - 1 = c * n + (d - 1) mod n" by (simp add: c_def)
    have r: "0 \<le> (d - 1) mod n" "(d - 1) mod n < n" using assms by simp_all
    have "c * n < d" using e r by linarith
    then have "(of_int (c * n) :: rat) < of_int d" by (simp only: of_int_less_iff)
    then have "(of_int c :: rat) < of_int d / of_int n"
      using np by (simp add: field_simps)
    then show "of_int ((d - 1) div n + 1) - 1 < (of_int d :: rat) / of_int n"
      by (simp add: c_def)
    have "(c + 1) * n = c * n + n" by (simp add: algebra_simps)
    then have "d \<le> (c + 1) * n" using e r by linarith
    then have "(of_int d :: rat) \<le> of_int ((c + 1) * n)" by (simp only: of_int_le_iff)
    then show "(of_int d :: rat) / of_int n \<le> of_int ((d - 1) div n + 1)"
      using np by (simp add: field_simps c_def)
  qed
  then have g: "\<lceil>1 / ((of_int n :: rat) / of_int d)\<rceil> - 1 = (d - 1) div n"
    by (simp only: inv)
  show ?thesis
    unfolding ilog2_def ilog2_ratio_def c f g ..
qed

lemma fl_pos_ratio:
  assumes "0 < n" "0 < d"
  shows "fl_pos (of_int n / of_int d * pow2 s) =
    dy (fst (rnd_ratio_pos n d s)) (snd (rnd_ratio_pos n d s))"
proof -
  define x :: rat where "x = of_int n / of_int d"
  have xp: "0 < x" using assms by (simp add: x_def)
  define l where "l = ilog2_ratio n d - 52"
  have il: "ilog2 (x * pow2 s) - 52 = l + s"
    using ilog2_scale[OF xp, of s] ilog2_of_ratio[OF assms] by (simp add: x_def l_def)
  have sc: "x * pow2 s / pow2 (l + s) = x / pow2 l"
    by (simp add: pow2_add)
  have m: "round_half_even (x / pow2 l) =
      (if 0 \<le> l then rne_div n (d * 2 ^ nat l) else rne_div (n * 2 ^ nat (- l)) d)"
  proof (cases "0 \<le> l")
    case True
    then have e: "x / pow2 l = of_int n / of_int (d * 2 ^ nat l)"
      by (simp add: x_def pow2_def)
    have pos: "0 < d * 2 ^ nat l" using assms by simp
    show ?thesis
      unfolding e by (simp only: round_half_even_ratio[OF pos] True if_True)
  next
    case False
    then have e: "x / pow2 l = of_int (n * 2 ^ nat (- l)) / of_int d"
      by (simp add: x_def pow2_def)
    show ?thesis
      unfolding e by (simp only: round_half_even_ratio[OF assms(2)] False if_False)
  qed
  show ?thesis
    unfolding fl_pos_def Let_def x_def[symmetric] il sc m
    by (simp add: rnd_ratio_pos_def Let_def dy_def l_def)
qed

lemma fl_ratio:
  assumes "0 < d"
  shows "fl (of_int n / of_int d * pow2 s) = dy (fst (rnd_ratio n d s)) (snd (rnd_ratio n d s))"
proof -
  have dp: "(0::rat) < of_int d" using assms by simp
  define x :: rat where "x = of_int n / of_int d * pow2 s"
  consider "n = 0" | "0 < n" | "n < 0" by linarith
  then show ?thesis
  proof cases
    case 1 then show ?thesis by (simp add: fl_def rnd_ratio_def dy_def)
  next
    case 2
    then have "0 < x" using dp by (simp add: x_def)
    then have "fl x = fl_pos x" by (simp add: fl_def)
    moreover have "rnd_ratio n d s = rnd_ratio_pos n d s" using 2 by (simp add: rnd_ratio_def)
    ultimately show ?thesis using fl_pos_ratio[OF 2 assms, of s] by (simp only: x_def)
  next
    case 3
    then have n': "0 < - n" by simp
    have "(of_int n :: rat) < 0" using 3 by simp
    then have "(of_int n :: rat) / of_int d < 0" using dp by (simp add: divide_neg_pos)
    from mult_neg_pos[OF this pow2_pos[of s]] have neg: "x < 0" unfolding x_def .
    then have f: "fl x = - fl_pos (- x)" by (simp add: fl_def)
    have mx: "- x = of_int (- n) / of_int d * pow2 s" by (simp add: x_def)
    have r: "rnd_ratio n d s = (- fst (rnd_ratio_pos (- n) d s), snd (rnd_ratio_pos (- n) d s))"
      using 3 by (simp add: rnd_ratio_def)
    have "fl x = - dy (fst (rnd_ratio_pos (- n) d s)) (snd (rnd_ratio_pos (- n) d s))"
      unfolding f mx using fl_pos_ratio[OF n' assms, of s] by simp
    then show ?thesis unfolding r x_def by (simp add: dy_def)
  qed
qed

lemma dy_shift: "e0 \<le> e \<Longrightarrow> dy m e = dy (m * 2 ^ nat (e - e0)) e0"
proof -
  assume "e0 \<le> e"
  then have a: "pow2 (e - e0) = 2 ^ nat (e - e0)" by (simp add: pow2_def)
  have "pow2 e = pow2 (e - e0) * pow2 e0"
    using pow2_add[of "e - e0" e0] by simp
  then show ?thesis by (simp add: dy_def a)
qed

lemma dy_align:
  "dy m1 e1 = dy (m1 * 2 ^ nat (e1 - min e1 e2)) (min e1 e2)"
  "dy m2 e2 = dy (m2 * 2 ^ nat (e2 - min e1 e2)) (min e1 e2)"
  by (rule dy_shift, simp)+

lemma dy_ratio: "dy m e = of_int m / of_int 1 * pow2 e"
  by (simp add: dy_def)

lemma fl_dy: "fl (dy m e) = dy (fst (rnd_ratio m 1 e)) (snd (rnd_ratio m 1 e))"
  unfolding dy_ratio[of m e] by (rule fl_ratio) simp

lemma dy_add: "dy m1 e1 + dy m2 e2 =
  dy (m1 * 2 ^ nat (e1 - min e1 e2) + m2 * 2 ^ nat (e2 - min e1 e2)) (min e1 e2)"
  by (subst dy_align(1)[of m1 e1 e2], subst dy_align(2)[of m2 e2 e1])
     (simp add: dy_def algebra_simps)

lemma dy_diff: "dy m1 e1 - dy m2 e2 =
  dy (m1 * 2 ^ nat (e1 - min e1 e2) - m2 * 2 ^ nat (e2 - min e1 e2)) (min e1 e2)"
  by (subst dy_align(1)[of m1 e1 e2], subst dy_align(2)[of m2 e2 e1])
     (simp add: dy_def algebra_simps)

lemma dy_mult: "dy m1 e1 * dy m2 e2 = dy (m1 * m2) (e1 + e2)"
  by (simp add: dy_def pow2_add)

lemma dy_le: "(dy m1 e1 \<le> dy m2 e2) =
  (m1 * 2 ^ nat (e1 - min e1 e2) \<le> m2 * 2 ^ nat (e2 - min e1 e2))"
proof -
  have "(dy m1 e1 \<le> dy m2 e2) =
    (of_int (m1 * 2 ^ nat (e1 - min e1 e2)) * pow2 (min e1 e2)
      \<le> of_int (m2 * 2 ^ nat (e2 - min e1 e2)) * pow2 (min e1 e2))"
    by (subst dy_align(1)[of m1 e1 e2], subst dy_align(2)[of m2 e2 e1]) (simp only: dy_def)
  also have "\<dots> = ((of_int (m1 * 2 ^ nat (e1 - min e1 e2)) :: rat)
      \<le> of_int (m2 * 2 ^ nat (e2 - min e1 e2)))"
    by (rule mult_le_cancel_right_pos) (rule pow2_pos)
  also have "\<dots> = (m1 * 2 ^ nat (e1 - min e1 e2) \<le> m2 * 2 ^ nat (e2 - min e1 e2))"
    by (rule of_int_le_iff)
  finally show ?thesis .
qed

lemma dy_less: "(dy m1 e1 < dy m2 e2) =
  (m1 * 2 ^ nat (e1 - min e1 e2) < m2 * 2 ^ nat (e2 - min e1 e2))"
proof -
  have "(dy m1 e1 < dy m2 e2) =
    (of_int (m1 * 2 ^ nat (e1 - min e1 e2)) * pow2 (min e1 e2)
      < of_int (m2 * 2 ^ nat (e2 - min e1 e2)) * pow2 (min e1 e2))"
    by (subst dy_align(1)[of m1 e1 e2], subst dy_align(2)[of m2 e2 e1]) (simp only: dy_def)
  also have "\<dots> = ((of_int (m1 * 2 ^ nat (e1 - min e1 e2)) :: rat)
      < of_int (m2 * 2 ^ nat (e2 - min e1 e2)))"
    by (rule mult_less_cancel_right_pos) (rule pow2_pos)
  also have "\<dots> = (m1 * 2 ^ nat (e1 - min e1 e2) < m2 * 2 ^ nat (e2 - min e1 e2))"
    by (rule of_int_less_iff)
  finally show ?thesis .
qed

lemma dy_abs: "\<bar>dy m e\<bar> = dy \<bar>m\<bar> e"
  by (simp add: dy_def abs_mult abs_of_pos)

lemma fadd_dy: "fadd (dy m1 e1) (dy m2 e2) =
  (let r = rnd_ratio (m1 * 2 ^ nat (e1 - min e1 e2) + m2 * 2 ^ nat (e2 - min e1 e2)) 1 (min e1 e2)
   in dy (fst r) (snd r))"
  unfolding fadd_def dy_add Let_def by (rule fl_dy)

lemma fsub_dy: "fsub (dy m1 e1) (dy m2 e2) =
  (let r = rnd_ratio (m1 * 2 ^ nat (e1 - min e1 e2) - m2 * 2 ^ nat (e2 - min e1 e2)) 1 (min e1 e2)
   in dy (fst r) (snd r))"
  unfolding fsub_def dy_diff Let_def by (rule fl_dy)

lemma fmul_dy: "fmul (dy m1 e1) (dy m2 e2) =
  (let r = rnd_ratio (m1 * m2) 1 (e1 + e2) in dy (fst r) (snd r))"
  unfolding fmul_def dy_mult Let_def by (rule fl_dy)

lemma fdiv_dy:
  assumes "0 < m2"
  shows "fdiv (dy m1 e1) (dy m2 e2) =
    (let r = rnd_ratio m1 m2 (e1 - e2) in dy (fst r) (snd r))"
proof -
  have "dy m1 e1 / dy m2 e2 = of_int m1 / of_int m2 * pow2 (e1 - e2)"
    by (simp add: dy_def pow2_diff)
  then show ?thesis
    unfolding fdiv_def Let_def using fl_ratio[OF assms, of m1 "e1 - e2"] by simp
qed

lemma js_round_dy: "js_round (dy m e) =
  (if 0 \<le> e then m * 2 ^ nat e else (2 * m + 2 ^ nat (- e)) div 2 ^ nat (1 - e))"
proof (cases "0 \<le> e")
  case True
  then have "dy m e = of_int (m * 2 ^ nat e)" by (simp add: dy_def pow2_def)
  then have "js_round (dy m e) = \<lfloor>(of_int (m * 2 ^ nat e) :: rat) + 1 / 2\<rfloor>"
    by (simp only: js_round_def)
  also have "\<dots> = m * 2 ^ nat e" by linarith
  finally show ?thesis using True by simp
next
  case False
  then have k: "nat (1 - e) = Suc (nat (- e))" by simp
  have "dy m e + 1 / 2 = of_int (2 * m + 2 ^ nat (- e)) / of_int (2 ^ nat (1 - e))"
    using False by (simp add: dy_def pow2_def k field_simps)
  then have "js_round (dy m e) = (2 * m + 2 ^ nat (- e)) div 2 ^ nat (1 - e)"
    by (simp only: js_round_def floor_divide_of_int_eq)
  then show ?thesis using False by simp
qed

lemma dy_of_int: "(of_int n :: rat) = dy n 0"
  by (simp add: dy_def)

lemma dy_1: "(1 :: rat) = dy 1 0"
  by (simp add: dy_def)

lemma bitlen_numeral_simps:
  "bitlen 1 = 1"
  "bitlen (numeral Num.One) = 1"
  "bitlen (numeral (Num.Bit0 k)) = bitlen (numeral k) + 1"
  "bitlen (numeral (Num.Bit1 k)) = bitlen (numeral k) + 1"
  by (subst compute_bitlen, simp)+

lemmas rnd_eval = rnd_ratio_def rnd_ratio_pos_def ilog2_ratio_def rne_div_def Let_def
  bitlen_numeral_simps

lemma lit_0_01_dy: "lit_0_01 = dy 5764607523034235 (- 59)"
proof -
  have "fl (1 / 100) = fl (of_int 1 / of_int 100 * pow2 0)" by simp
  also have "\<dots> = dy (fst (rnd_ratio 1 100 0)) (snd (rnd_ratio 1 100 0))"
    by (rule fl_ratio) simp
  also have "rnd_ratio 1 100 0 = (5764607523034235, - 59)"
    by (simp add: rnd_eval)
  finally show ?thesis by (simp add: lit_0_01_def)
qed

lemma lit_0_1_dy: "lit_0_1 = dy 7205759403792794 (- 56)"
proof -
  have "fl (1 / 10) = fl (of_int 1 / of_int 10 * pow2 0)" by simp
  also have "\<dots> = dy (fst (rnd_ratio 1 10 0)) (snd (rnd_ratio 1 10 0))"
    by (rule fl_ratio) simp
  also have "rnd_ratio 1 10 0 = (7205759403792794, - 56)"
    by (simp add: rnd_eval)
  finally show ?thesis by (simp add: lit_0_1_def)
qed

lemma dy_numeral: "(numeral k :: rat) = dy (numeral k) 0"
  by (simp add: dy_def)

lemma dy_0: "(0 :: rat) = dy 0 0"
  by (simp add: dy_def)

lemmas prog_eval = testFg_def clampedFg_def recomposed_def channel_error_def recon_error_def
  candidate_def scan_step_def scan_init_def scan_start_def minAlpha_def alphaStep_def
  fadd_dy fsub_dy fmul_dy fdiv_dy js_round_dy dy_le dy_less dy_abs dy_numeral dy_1 dy_0 dy_of_int
  lit_0_01_dy lit_0_1_dy rnd_eval

section \<open>The alpha scan terminates\<close>

lemma lit_0_01_bounds: "99 / 10000 \<le> lit_0_01" "lit_0_01 \<le> 101 / 10000"
  by (simp_all add: lit_0_01_dy dy_def pow2_def)

lemma lit_0_1_bounds: "99 / 1000 \<le> lit_0_1" "lit_0_1 \<le> 101 / 1000"
  by (simp_all add: lit_0_1_dy dy_def pow2_def)

lemma fl_lower:
  assumes "0 \<le> x"
  shows "x - x / 2 ^ 53 \<le> fl x"
proof -
  have "\<bar>fl x - x\<bar> \<le> \<bar>x\<bar> / 2 ^ 53" by (rule fl_error)
  moreover have "\<bar>x\<bar> = x" using assms by simp
  ultimately show ?thesis by linarith
qed

lemma fl_upper:
  assumes "0 \<le> x"
  shows "fl x \<le> x + x / 2 ^ 53"
proof -
  have "\<bar>fl x - x\<bar> \<le> \<bar>x\<bar> / 2 ^ 53" by (rule fl_error)
  moreover have "\<bar>x\<bar> = x" using assms by simp
  ultimately show ?thesis by linarith
qed

lemma alpha_progress:
  assumes "0 \<le> t" "t \<le> 1"
  shows "t + 1 / 128 \<le> fadd t alphaStep"
proof -
  define x where "x = t + alphaStep"
  have a: "99 / 10000 \<le> alphaStep" "alphaStep \<le> 101 / 10000"
    using lit_0_01_bounds by (simp_all add: alphaStep_def)
  have x0: "0 \<le> x" and x2: "x \<le> 2" using assms a by (simp_all add: x_def)
  have "x / 2 ^ 53 \<le> 2 / 2 ^ 53" using x2 by (simp add: divide_right_mono)
  then have "x - 2 / 2 ^ 53 \<le> fl x" using fl_lower[OF x0] by linarith
  then show ?thesis using a by (simp add: fadd_def x_def)
qed

lemma alpha_step_upper:
  assumes "0 \<le> t" "t \<le> 1"
  shows "fadd t alphaStep \<le> t + 102 / 10000"
proof -
  define x where "x = t + alphaStep"
  have a: "99 / 10000 \<le> alphaStep" "alphaStep \<le> 101 / 10000"
    using lit_0_01_bounds by (simp_all add: alphaStep_def)
  have x0: "0 \<le> x" and x2: "x \<le> 2" using assms a by (simp_all add: x_def)
  have "x / 2 ^ 53 \<le> 2 / 2 ^ 53" using x2 by (simp add: divide_right_mono)
  then have "fl x \<le> x + 2 / 2 ^ 53" using fl_upper[OF x0] by linarith
  then show ?thesis using a by (simp add: fadd_def x_def)
qed

lemma alpha_scan_stop:
  "\<not> testAlpha \<le> 1 \<Longrightarrow> alpha_scan fullR fullG fullB bgR bgG bgB testAlpha st = Some st"
  by (subst alpha_scan.simps) simp

lemma alpha_scan_exit:
  "testAlpha \<le> 1 \<Longrightarrow> recon_error fullR fullG fullB bgR bgG bgB testAlpha < lit_0_1 \<Longrightarrow>
   alpha_scan fullR fullG fullB bgR bgG bgB testAlpha st =
     Some (scan_step fullR fullG fullB bgR bgG bgB testAlpha
       (recon_error fullR fullG fullB bgR bgG bgB testAlpha) st)"
  by (subst alpha_scan.simps) (simp add: Let_def)

lemma alpha_scan_next:
  "testAlpha \<le> 1 \<Longrightarrow> \<not> recon_error fullR fullG fullB bgR bgG bgB testAlpha < lit_0_1 \<Longrightarrow>
   alpha_scan fullR fullG fullB bgR bgG bgB testAlpha st =
     alpha_scan fullR fullG fullB bgR bgG bgB (fadd testAlpha alphaStep)
       (scan_step fullR fullG fullB bgR bgG bgB testAlpha
         (recon_error fullR fullG fullB bgR bgG bgB testAlpha) st)"
  by (subst alpha_scan.simps) (simp add: Let_def)

lemma cand_0 [simp]: "cand a 0 = a"
  by (simp add: cand_def)

lemma cand_Suc: "cand a (Suc n) = fadd (cand a n) alphaStep"
  by (simp add: cand_def)

lemma cand_shift: "cand a (Suc n) = cand (fadd a alphaStep) n"
  by (induction n) (simp_all add: cand_Suc)

lemma scan_upto_shift:
  "scan_upto fullR fullG fullB bgR bgG bgB a st (Suc k) =
   scan_upto fullR fullG fullB bgR bgG bgB (fadd a alphaStep)
     (scan_step fullR fullG fullB bgR bgG bgB a (recon_error fullR fullG fullB bgR bgG bgB a) st) k"
proof (induction k)
  case 0
  show ?case by (simp add: cand_Suc)
next
  case (Suc k)
  have "scan_upto fullR fullG fullB bgR bgG bgB a st (Suc (Suc k)) =
      scan_step fullR fullG fullB bgR bgG bgB (cand a (Suc (Suc k)))
        (recon_error fullR fullG fullB bgR bgG bgB (cand a (Suc (Suc k))))
        (scan_upto fullR fullG fullB bgR bgG bgB a st (Suc k))"
    by simp
  also have "\<dots> = scan_step fullR fullG fullB bgR bgG bgB (cand (fadd a alphaStep) (Suc k))
        (recon_error fullR fullG fullB bgR bgG bgB (cand (fadd a alphaStep) (Suc k)))
        (scan_upto fullR fullG fullB bgR bgG bgB (fadd a alphaStep)
          (scan_step fullR fullG fullB bgR bgG bgB a
            (recon_error fullR fullG fullB bgR bgG bgB a) st) k)"
    by (simp only: Suc.IH cand_shift[of a "Suc k"])
  finally show ?case by simp
qed

lemma scan_result:
  assumes "0 \<le> t" "t \<le> 1"
  shows "\<exists>k. (\<forall>n\<le>k. cand t n \<le> 1)
    \<and> (\<forall>n<k. \<not> recon_error fullR fullG fullB bgR bgG bgB (cand t n) < lit_0_1)
    \<and> (recon_error fullR fullG fullB bgR bgG bgB (cand t k) < lit_0_1 \<or> \<not> cand t (Suc k) \<le> 1)
    \<and> alpha_scan fullR fullG fullB bgR bgG bgB t st =
        Some (scan_upto fullR fullG fullB bgR bgG bgB t st k)"
  using assms
proof (induction "nat \<lfloor>(2 - t) * 128\<rfloor>" arbitrary: t st rule: less_induct)
  case less
  let ?E = "\<lambda>a. recon_error fullR fullG fullB bgR bgG bgB a"
  let ?t' = "fadd t alphaStep"
  let ?st' = "scan_step fullR fullG fullB bgR bgG bgB t (?E t) st"
  show ?case
  proof (cases "?E t < lit_0_1")
    case True
    have "alpha_scan fullR fullG fullB bgR bgG bgB t st = Some ?st'"
      using alpha_scan_exit[OF less.prems(2) True] .
    then show ?thesis using True less.prems(2)
      by (intro exI[of _ 0]) simp
  next
    case False
    note nx = alpha_scan_next[OF less.prems(2) False, of st]
    show ?thesis
    proof (cases "?t' \<le> 1")
      case f: False
      have "alpha_scan fullR fullG fullB bgR bgG bgB t st = Some ?st'"
        using nx alpha_scan_stop[OF f] by simp
      then show ?thesis using f less.prems(2)
        by (intro exI[of _ 0]) (simp add: cand_Suc)
    next
      case t: True
      have pr: "t + 1 / 128 \<le> ?t'" using alpha_progress[OF less.prems] .
      then have t0: "0 \<le> ?t'" using less.prems(1) by linarith
      have "(2 - ?t') * 128 \<le> (2 - t) * 128 - 1" using pr by (simp add: algebra_simps)
      then have "\<lfloor>(2 - ?t') * 128\<rfloor> \<le> \<lfloor>(2 - t) * 128 - 1\<rfloor>" by (rule floor_mono)
      moreover have "\<lfloor>(2 - t) * 128 - 1\<rfloor> = \<lfloor>(2 - t) * 128\<rfloor> - 1"
        by (rule floor_diff_one)
      ultimately have fl1: "\<lfloor>(2 - ?t') * 128\<rfloor> < \<lfloor>(2 - t) * 128\<rfloor>" by linarith
      have "(0::rat) \<le> (2 - ?t') * 128" using t by simp
      then have "0 \<le> \<lfloor>(2 - ?t') * 128\<rfloor>" by simp
      then have m: "nat \<lfloor>(2 - ?t') * 128\<rfloor> < nat \<lfloor>(2 - t) * 128\<rfloor>"
        using fl1 by linarith
      from less.hyps[OF m t0 t, of ?st'] obtain k where k:
        "\<forall>n\<le>k. cand ?t' n \<le> 1"
        "\<forall>n<k. \<not> ?E (cand ?t' n) < lit_0_1"
        "?E (cand ?t' k) < lit_0_1 \<or> \<not> cand ?t' (Suc k) \<le> 1"
        "alpha_scan fullR fullG fullB bgR bgG bgB ?t' ?st' =
           Some (scan_upto fullR fullG fullB bgR bgG bgB ?t' ?st' k)"
        by blast
      have a: "\<forall>n\<le>Suc k. cand t n \<le> 1"
      proof (intro allI impI)
        fix n assume "n \<le> Suc k"
        then show "cand t n \<le> 1"
          using k(1) less.prems(2) by (cases n) (simp_all add: cand_shift)
      qed
      have b: "\<forall>n<Suc k. \<not> ?E (cand t n) < lit_0_1"
      proof (intro allI impI)
        fix n assume "n < Suc k"
        then show "\<not> ?E (cand t n) < lit_0_1"
          using k(2) False by (cases n) (simp_all add: cand_shift)
      qed
      have c: "?E (cand t (Suc k)) < lit_0_1 \<or> \<not> cand t (Suc (Suc k)) \<le> 1"
        using k(3) by (simp add: cand_shift)
      have d: "alpha_scan fullR fullG fullB bgR bgG bgB t st =
          Some (scan_upto fullR fullG fullB bgR bgG bgB t st (Suc k))"
        using nx k(4) by (simp only: scan_upto_shift)
      from a b c d show ?thesis by blast
    qed
  qed
qed

lemma fl_1: "fl 1 = 1"
proof -
  have "fl (dy 1 0) = dy 4503599627370496 (- 52)"
    by (simp add: fl_dy rnd_eval)
  then show ?thesis by (simp add: dy_def pow2_def)
qed

lemma uint_byte_range: "0 \<le> uint (b :: byte)" "uint (b :: byte) \<le> 255"
  using uint_lt2p[of b] by simp_all

lemma maxAbsDiff_range: "0 \<le> maxAbsDiff full bg" "maxAbsDiff full bg \<le> 255"
proof -
  obtain fr fg fb fa where f: "full = (fr, fg, fb, fa)" by (cases full)
  obtain br bg' bb ba where b: "bg = (br, bg', bb, ba)" by (cases bg)
  have d: "\<bar>uint x - uint y\<bar> \<le> 255" for x y :: byte
  proof -
    have "0 \<le> uint x" "uint x \<le> 255" "0 \<le> uint y" "uint y \<le> 255"
      by (rule uint_byte_range)+
    then show ?thesis by linarith
  qed
  show "0 \<le> maxAbsDiff full bg" by (simp add: f b Let_def)
  show "maxAbsDiff full bg \<le> 255" using d by (simp add: f b Let_def)
qed

lemma minAlpha_le_1:
  assumes "0 \<le> mad" "mad \<le> 255"
  shows "minAlpha mad \<le> 1"
proof (cases "mad = 255")
  case True
  then show ?thesis by (simp add: minAlpha_def fdiv_def fl_1)
next
  case False
  then have "mad \<le> 254" using assms by simp
  then have "(of_int mad :: rat) \<le> 254" by (metis of_int_le_iff of_int_numeral)
  then have x: "(of_int mad :: rat) / 255 \<le> 254 / 255" by simp
  have x0: "0 \<le> (of_int mad :: rat) / 255" using assms by simp
  have "fl (of_int mad / 255) \<le> of_int mad / 255 + (of_int mad / 255) / 2 ^ 53"
    by (rule fl_upper[OF x0])
  also have "\<dots> \<le> 254 / 255 + (254 / 255) / 2 ^ 53"
    using x by (intro add_mono divide_right_mono) simp_all
  also have "\<dots> \<le> 1" by simp
  finally show ?thesis by (simp add: minAlpha_def fdiv_def)
qed

lemma scan_start_range:
  assumes "0 \<le> mad" "mad \<le> 255"
  shows "0 < scan_start mad" "scan_start mad \<le> 1"
proof -
  have "0 < lit_0_01" using lit_0_01_bounds(1) by linarith
  then show "0 < scan_start mad" by (simp add: scan_start_def max_def)
  have "lit_0_01 \<le> 1" using lit_0_01_bounds(2) by linarith
  then show "scan_start mad \<le> 1"
    using minAlpha_le_1[OF assms] by (simp add: scan_start_def)
qed

lemma scan_pixel_result:
  "\<exists>k. (\<forall>n\<le>k. cand (scan_start (maxAbsDiff (fullR, fullG, fullB, fullA) (bgR, bgG, bgB, bgA))) n \<le> 1)
    \<and> (\<forall>n<k. \<not> recon_error (uint fullR) (uint fullG) (uint fullB) (uint bgR) (uint bgG) (uint bgB)
          (cand (scan_start (maxAbsDiff (fullR, fullG, fullB, fullA) (bgR, bgG, bgB, bgA))) n) < lit_0_1)
    \<and> (recon_error (uint fullR) (uint fullG) (uint fullB) (uint bgR) (uint bgG) (uint bgB)
          (cand (scan_start (maxAbsDiff (fullR, fullG, fullB, fullA) (bgR, bgG, bgB, bgA))) k) < lit_0_1
        \<or> \<not> cand (scan_start (maxAbsDiff (fullR, fullG, fullB, fullA) (bgR, bgG, bgB, bgA))) (Suc k) \<le> 1)
    \<and> scan_pixel (fullR, fullG, fullB, fullA) (bgR, bgG, bgB, bgA) =
        Some (scan_upto (uint fullR) (uint fullG) (uint fullB) (uint bgR) (uint bgG) (uint bgB)
          (scan_start (maxAbsDiff (fullR, fullG, fullB, fullA) (bgR, bgG, bgB, bgA)))
          (scan_init (scan_start (maxAbsDiff (fullR, fullG, fullB, fullA) (bgR, bgG, bgB, bgA)))) k)"
proof -
  let ?a = "scan_start (maxAbsDiff (fullR, fullG, fullB, fullA) (bgR, bgG, bgB, bgA))"
  have r: "0 < ?a" "?a \<le> 1"
    by (rule scan_start_range[OF maxAbsDiff_range])+
  from scan_result[OF less_imp_le[OF r(1)] r(2)] show ?thesis
    by (simp only: scan_pixel.simps)
qed

lemma scan_pixel_total: "\<exists>st. scan_pixel full bg = Some st"
proof -
  obtain fr fg fb fa where f: "full = (fr, fg, fb, fa)" by (cases full)
  obtain br bg' bb ba where b: "bg = (br, bg', bb, ba)" by (cases bg)
  show ?thesis unfolding f b using scan_pixel_result[of fr fg fb fa br bg' bb ba] by blast
qed

lemma extract_pixel_total: "\<exists>p. extract_pixel full bg = Some p"
proof -
  obtain st where "scan_pixel full bg = Some st"
    using scan_pixel_total by blast
  then have "extract_pixel full bg =
      Some (if maxDiff full bg < threshold then (0, 0, 0, 0)
            else emit_pixel st (maxAbsDiff full bg))"
    by (simp add: extract_pixel_def)
  then show ?thesis by (rule exI)
qed

section \<open>The pixel loop\<close>

lemma length_write_pixel [simp]: "length (write_pixel buf i p) = length buf"
  by (cases p) simp

lemma pixel_at_write_pixel:
  assumes "4 * k + 3 < length buf"
  shows "pixel_at (write_pixel buf (4 * k) p) j = (if j = k then p else pixel_at buf j)"
proof -
  obtain r g b a where p: "p = (r, g, b, a)" by (cases p)
  show ?thesis
  proof (cases "j = k")
    case True
    then show ?thesis using assms by (simp add: p pixel_at_def)
  next
    case False
    then have "4 * j + 3 < 4 * k \<or> 4 * k + 3 < 4 * j" by arith
    then show ?thesis using False by (auto simp: p pixel_at_def)
  qed
qed

lemma pixel_loop_result:
  assumes "length fullBuffer = 4 * n" "length bgBuffer = 4 * n"
  shows "k \<le> n \<Longrightarrow> length outputBuffer = 4 * n \<Longrightarrow>
    \<exists>out. pixel_loop fullBuffer bgBuffer (4 * k) outputBuffer = Some out
      \<and> length out = 4 * n
      \<and> (\<forall>j<n. Some (pixel_at out j) =
            (if j < k then Some (pixel_at outputBuffer j)
             else extract_pixel (pixel_at fullBuffer j) (pixel_at bgBuffer j)))"
proof (induction "n - k" arbitrary: k outputBuffer)
  case 0
  then have "k = n" by simp
  then have "pixel_loop fullBuffer bgBuffer (4 * k) outputBuffer = Some outputBuffer"
    using assms by (subst pixel_loop.simps) simp
  then show ?case using 0 \<open>k = n\<close> by simp
next
  case (Suc d)
  then have kn: "k < n" by simp
  obtain p where p: "extract_pixel (pixel_at fullBuffer k) (pixel_at bgBuffer k) = Some p"
    using extract_pixel_total by blast
  let ?out = "write_pixel outputBuffer (4 * k) p"
  have "pixel_loop fullBuffer bgBuffer (4 * k) outputBuffer =
      pixel_loop fullBuffer bgBuffer (4 * k + 4) ?out"
    using kn assms p by (subst pixel_loop.simps) (simp add: pixel_at_def)
  moreover have "4 * k + 4 = 4 * Suc k" by simp
  ultimately have step: "pixel_loop fullBuffer bgBuffer (4 * k) outputBuffer =
      pixel_loop fullBuffer bgBuffer (4 * Suc k) ?out"
    by (simp only:)
  have d: "d = n - Suc k" using Suc.hyps(2) by simp
  have "Suc k \<le> n" using kn by simp
  moreover have "length ?out = 4 * n" using Suc.prems(2) by simp
  ultimately obtain out where out:
    "pixel_loop fullBuffer bgBuffer (4 * Suc k) ?out = Some out"
    "length out = 4 * n"
    "\<forall>j<n. Some (pixel_at out j) =
        (if j < Suc k then Some (pixel_at ?out j)
         else extract_pixel (pixel_at fullBuffer j) (pixel_at bgBuffer j))"
    using Suc.hyps(1)[OF d] by blast
  have w: "4 * k + 3 < length outputBuffer" using kn Suc.prems(2) by simp
  have "\<forall>j<n. Some (pixel_at out j) =
        (if j < k then Some (pixel_at outputBuffer j)
         else extract_pixel (pixel_at fullBuffer j) (pixel_at bgBuffer j))"
  proof (intro allI impI)
    fix j assume "j < n"
    then have e: "Some (pixel_at out j) =
        (if j < Suc k then Some (pixel_at ?out j)
         else extract_pixel (pixel_at fullBuffer j) (pixel_at bgBuffer j))"
      using out(3) by blast
    show "Some (pixel_at out j) =
        (if j < k then Some (pixel_at outputBuffer j)
         else extract_pixel (pixel_at fullBuffer j) (pixel_at bgBuffer j))"
    proof (cases "j = k")
      case True
      then show ?thesis using e p by (simp add: pixel_at_write_pixel[OF w])
    next
      case False
      then show ?thesis using e by (auto simp: pixel_at_write_pixel[OF w])
    qed
  qed
  then show ?case using step out(1,2) by simp
qed

lemma extractForeground_result:
  assumes "wf_raster full" "wf_raster background"
    "width full = width background" "height full = height background"
  shows "\<exists>out. extractForeground full background = Some (Inr out)
    \<and> width out = width full \<and> height out = height full \<and> wf_raster out
    \<and> (\<forall>j < width full * height full.
          Some (pixel_at (data out) j) =
            extract_pixel (pixel_at (data full) j) (pixel_at (data background) j))"
proof -
  let ?n = "width full * height full"
  have lf: "length (data full) = 4 * ?n" using assms(1) by (simp add: wf_raster_def)
  have lb: "length (data background) = 4 * ?n" using assms(2,3,4) by (simp add: wf_raster_def)
  have "\<exists>out. pixel_loop (data full) (data background) (4 * 0) (replicate (?n * 4) 0) = Some out
      \<and> length out = 4 * ?n
      \<and> (\<forall>j < ?n. Some (pixel_at out j) =
            (if j < 0 then Some (pixel_at (replicate (?n * 4) 0) j)
             else extract_pixel (pixel_at (data full) j) (pixel_at (data background) j)))"
    by (rule pixel_loop_result[OF lf lb]) simp_all
  then obtain out where out:
    "pixel_loop (data full) (data background) 0 (replicate (?n * 4) 0) = Some out"
    "length out = 4 * ?n"
    "\<forall>j < ?n. Some (pixel_at out j) =
        extract_pixel (pixel_at (data full) j) (pixel_at (data background) j)"
    by auto
  show ?thesis
    using assms(3,4) out
    by (intro exI[of _ "\<lparr>width = width full, height = height full, data = out\<rparr>"])
       (simp add: extractForeground_def wf_raster_def)
qed

section \<open>Candidates and the best of them\<close>

lemma cand_lower:
  assumes "0 \<le> a"
  shows "(\<forall>n<k. cand a n \<le> 1) \<Longrightarrow> a + of_nat k / 128 \<le> cand a k"
proof (induction k)
  case 0
  show ?case by simp
next
  case (Suc k)
  then have ih: "a + of_nat k / 128 \<le> cand a k" by simp
  have le: "cand a k \<le> 1" using Suc.prems by simp
  have "(0::rat) \<le> of_nat k / 128" by simp
  then have "0 \<le> cand a k" using ih assms by linarith
  from alpha_progress[OF this le] have "cand a k + 1 / 128 \<le> cand a (Suc k)"
    by (simp add: cand_Suc)
  then have "a + of_nat k / 128 + 1 / 128 \<le> cand a (Suc k)" using ih by linarith
  then show ?case by (simp add: add_divide_distrib)
qed

lemma cand_increasing:
  assumes "0 \<le> a" "\<forall>n<k. cand a n \<le> 1" "n < k"
  shows "cand a n < cand a (Suc n)"
proof -
  have "\<forall>m<n. cand a m \<le> 1" using assms(2,3) by simp
  from cand_lower[OF assms(1) this] have "a + of_nat n / 128 \<le> cand a n" .
  moreover have "(0::rat) \<le> of_nat n / 128" by simp
  ultimately have "0 \<le> cand a n" using assms(1) by linarith
  moreover have "cand a n \<le> 1" using assms(2,3) by simp
  ultimately have "cand a n + 1 / 128 \<le> cand a (Suc n)"
    using alpha_progress by (simp add: cand_Suc)
  then show ?thesis by linarith
qed

lemma cand_count:
  assumes "0 < a" "\<forall>n\<le>k. cand a n \<le> 1"
  shows "k < 128"
proof -
  have "\<forall>n<k. cand a n \<le> 1" using assms(2) by simp
  from cand_lower[OF less_imp_le[OF assms(1)] this]
  have "a + of_nat k / 128 \<le> cand a k" .
  moreover have "cand a k \<le> 1" using assms(2) by simp
  ultimately have "(of_nat k :: rat) / 128 < 1" using assms(1) by linarith
  then have "(of_nat k :: rat) < 128" by simp
  then show ?thesis by (metis of_nat_less_iff of_nat_numeral)
qed

lemma scan_upto_best:
  "\<exists>j\<le>k. (\<forall>n\<le>k. recon_error fullR fullG fullB bgR bgG bgB (cand a j)
                  \<le> recon_error fullR fullG fullB bgR bgG bgB (cand a n))
     \<and> (\<forall>n<j. recon_error fullR fullG fullB bgR bgG bgB (cand a j)
                  < recon_error fullR fullG fullB bgR bgG bgB (cand a n))
     \<and> scan_upto fullR fullG fullB bgR bgG bgB a (scan_init a') k =
         candidate fullR fullG fullB bgR bgG bgB (cand a j)"
proof (induction k)
  case 0
  show ?case by (simp add: scan_step_def scan_init_def candidate_def)
next
  case (Suc k)
  let ?E = "\<lambda>n. recon_error fullR fullG fullB bgR bgG bgB (cand a n)"
  from Suc obtain j where j: "j \<le> k" "\<forall>n\<le>k. ?E j \<le> ?E n" "\<forall>n<j. ?E j < ?E n"
    "scan_upto fullR fullG fullB bgR bgG bgB a (scan_init a') k =
       candidate fullR fullG fullB bgR bgG bgB (cand a j)"
    by blast
  show ?case
  proof (cases "?E (Suc k) < ?E j")
    case True
    have m: "\<forall>n\<le>Suc k. ?E (Suc k) \<le> ?E n"
    proof (intro allI impI)
      fix n assume "n \<le> Suc k"
      then consider "n = Suc k" | "n \<le> k" by linarith
      then show "?E (Suc k) \<le> ?E n"
      proof cases
        case 1 then show ?thesis by simp
      next
        case 2 then have "?E j \<le> ?E n" using j(2) by blast
        then show ?thesis using True by linarith
      qed
    qed
    have s: "\<forall>n<Suc k. ?E (Suc k) < ?E n"
    proof (intro allI impI)
      fix n assume "n < Suc k"
      then have "?E j \<le> ?E n" using j(2) by simp
      then show "?E (Suc k) < ?E n" using True by linarith
    qed
    have "scan_upto fullR fullG fullB bgR bgG bgB a (scan_init a') (Suc k) =
        candidate fullR fullG fullB bgR bgG bgB (cand a (Suc k))"
      using True by (simp add: j(4) scan_step_def candidate_def)
    with m s show ?thesis by blast
  next
    case False
    have m: "\<forall>n\<le>Suc k. ?E j \<le> ?E n"
    proof (intro allI impI)
      fix n assume "n \<le> Suc k"
      then consider "n = Suc k" | "n \<le> k" by linarith
      then show "?E j \<le> ?E n"
      proof cases
        case 1 then show ?thesis using False by simp
      next
        case 2 then show ?thesis using j(2) by blast
      qed
    qed
    have "scan_upto fullR fullG fullB bgR bgG bgB a (scan_init a') (Suc k) =
        candidate fullR fullG fullB bgR bgG bgB (cand a j)"
      using False by (simp add: j(4) scan_step_def candidate_def)
    with m j(1,3) show ?thesis by (intro exI[of _ j]) simp
  qed
qed

section \<open>Exactly representable values\<close>

lemma fl_rel:
  assumes "0 \<le> x"
  shows "x * (1 - 1 / 2 ^ 53) \<le> fl x" "fl x \<le> x * (1 + 1 / 2 ^ 53)"
proof -
  have "x - x / 2 ^ 53 = x * (1 - 1 / 2 ^ 53)" by (simp add: algebra_simps)
  then show "x * (1 - 1 / 2 ^ 53) \<le> fl x" using fl_lower[OF assms] by simp
  have "x + x / 2 ^ 53 = x * (1 + 1 / 2 ^ 53)" by (simp add: algebra_simps)
  then show "fl x \<le> x * (1 + 1 / 2 ^ 53)" using fl_upper[OF assms] by simp
qed

lemma fl_nonneg: "0 \<le> x \<Longrightarrow> 0 \<le> fl x"
proof -
  assume x: "0 \<le> x"
  have "0 \<le> x * (1 - 1 / 2 ^ 53)" using x by simp
  then show ?thesis using fl_rel(1)[OF x] by linarith
qed

lemma fl_dy_exact:
  assumes "\<bar>m\<bar> < 2 ^ 53"
  shows "fl (dy m e) = dy m e"
proof -
  have pos: "fl_pos (dy n e) = dy n e" if n: "0 < n" "n < 2 ^ 53" for n
  proof -
    have b: "2 ^ nat (bitlen n - 1) \<le> n" "n < 2 ^ nat (bitlen n)"
      using bitlen_bounds[OF n(1)] by auto
    have bl1: "1 \<le> bitlen n" using n(1) by (simp add: bitlen_alt_def)
    have bl53: "bitlen n \<le> 53" using n(2) by (simp add: bitlen_le_iff_power)
    have p1: "pow2 (bitlen n - 1) = 2 ^ nat (bitlen n - 1)" using bl1 by (simp add: pow2_def)
    have p2: "pow2 (bitlen n) = 2 ^ nat (bitlen n)" using bl1 by (simp add: pow2_def)
    have lo: "pow2 (bitlen n - 1) \<le> of_int n" unfolding p1 by (rule pow2_le_of_int[OF b(1)])
    have hi: "of_int n < pow2 (bitlen n - 1 + 1)" using of_int_less_pow2[OF b(2)] by (simp add: p2)
    have "ilog2 (of_int n) = bitlen n - 1" by (rule ilog2_unique[OF lo hi])
    then have il: "ilog2 (dy n e) = bitlen n - 1 + e"
      using ilog2_scale[of "of_int n" e] n(1) by (simp add: dy_def)
    define k where "k = nat (53 - bitlen n)"
    have k: "int k = 53 - bitlen n" using bl53 by (simp add: k_def)
    have e': "bitlen n - 1 + e - 52 = e - int k" using k by simp
    have "dy n e / pow2 (e - int k) = of_int n * pow2 (int k)"
      by (simp add: dy_def pow2_diff)
    also have "\<dots> = of_int (n * 2 ^ k)" by (simp add: pow2_nat)
    finally have sc: "dy n e / pow2 (e - int k) = of_int (n * 2 ^ k)" .
    have "fl_pos (dy n e) = of_int (n * 2 ^ k) * pow2 (e - int k)"
      unfolding fl_pos_def Let_def il e' sc by (simp only: round_half_even_of_int)
    also have "\<dots> = of_int n * (pow2 (int k) * pow2 (e - int k))" by (simp add: pow2_nat)
    also have "pow2 (int k) * pow2 (e - int k) = pow2 e"
      using pow2_add[of "int k" "e - int k"] by simp
    finally show ?thesis by (simp add: dy_def)
  qed
  consider "m = 0" | "0 < m" | "m < 0" by linarith
  then show ?thesis
  proof cases
    case 1 then show ?thesis by (simp add: fl_def dy_def)
  next
    case 2
    then have "0 < dy m e" by (simp add: dy_def)
    then show ?thesis using pos[of m] 2 assms by (simp add: fl_def)
  next
    case 3
    then have "dy m e < 0" by (simp add: dy_def mult_neg_pos)
    moreover have "- dy m e = dy (- m) e" by (simp add: dy_def)
    ultimately show ?thesis using pos[of "- m"] 3 assms by (simp add: fl_def)
  qed
qed

lemma fl_of_int_exact: "\<bar>n\<bar> < 2 ^ 53 \<Longrightarrow> fl (of_int n) = of_int n"
  using fl_dy_exact[of n 0] by (simp add: dy_def)

lemma fl_half_exact: "\<bar>n\<bar> < 2 ^ 53 \<Longrightarrow> fl (of_int n / 2) = of_int n / 2"
  using fl_dy_exact[of n "- 1"] by (simp add: dy_def pow2_def)

lemma center_offset_eq:
  assumes "0 \<le> s" "s \<le> 432"
  shows "center_offset s = (432 - s + 1) div 2"
proof -
  have a: "\<bar>432 - s\<bar> < 2 ^ 53" using assms by simp
  have "fsub (of_int ANDROID_LAYER_SIZE) (of_int s) = of_int (432 - s)"
    using fl_of_int_exact[OF a] by (simp add: fsub_def ANDROID_LAYER_SIZE_def)
  then have "fdiv (fsub (of_int ANDROID_LAYER_SIZE) (of_int s)) 2 = of_int (432 - s) / 2"
    using fl_half_exact[OF a] by (simp add: fdiv_def)
  then have "center_offset s = \<lfloor>(of_int (432 - s) :: rat) / 2 + 1 / 2\<rfloor>"
    by (simp only: center_offset_def js_round_def)
  also have "(of_int (432 - s) :: rat) / 2 + 1 / 2 = of_int (432 - s + 1) / of_int 2" by simp
  also have "\<lfloor>(of_int (432 - s + 1) :: rat) / of_int 2\<rfloor> = (432 - s + 1) div 2"
    by (rule floor_divide_of_int_eq)
  finally show ?thesis .
qed

section \<open>The scale of the safe-area fit\<close>

lemma fit_scale_bounds:
  assumes "0 < w" "0 < h"
  defines "s \<equiv> fit_scale_exact w h"
  shows "s * (1 - 1 / 2 ^ 53) \<le> fit_scale w h" "fit_scale w h \<le> s * (1 + 1 / 2 ^ 53)"
proof -
  note s_def = s_def[unfolded fit_scale_exact_def]
  let ?a = "264 / of_nat w :: rat" and ?b = "264 / of_nat h :: rat"
  have a0: "0 \<le> ?a" and b0: "0 \<le> ?b" by simp_all
  have fs: "fit_scale w h = min (fl ?a) (fl ?b)"
    by (simp add: fit_scale_def fdiv_def ANDROID_SAFE_AREA_def)
  have up: "(1::rat) + 1 / 2 ^ 53 \<ge> 0" and lo: "(1::rat) - 1 / 2 ^ 53 \<ge> 0" by simp_all
  have sa: "s \<le> ?a" and sb: "s \<le> ?b" by (simp_all add: s_def)
  have "s * (1 - 1 / 2 ^ 53) \<le> ?a * (1 - 1 / 2 ^ 53)"
    using sa lo by (rule mult_right_mono)
  then have 1: "s * (1 - 1 / 2 ^ 53) \<le> fl ?a" using fl_rel(1)[OF a0] by linarith
  have "s * (1 - 1 / 2 ^ 53) \<le> ?b * (1 - 1 / 2 ^ 53)"
    using sb lo by (rule mult_right_mono)
  then have 2: "s * (1 - 1 / 2 ^ 53) \<le> fl ?b" using fl_rel(1)[OF b0] by linarith
  from 1 2 show "s * (1 - 1 / 2 ^ 53) \<le> fit_scale w h" by (simp add: fs)
  show "fit_scale w h \<le> s * (1 + 1 / 2 ^ 53)"
  proof (cases "?a \<le> ?b")
    case True
    then have "s = ?a" by (simp add: s_def)
    then have "fl ?a \<le> s * (1 + 1 / 2 ^ 53)" using fl_rel(2)[OF a0] by simp
    then show ?thesis unfolding fs by (rule min.coboundedI1)
  next
    case False
    then have "s = ?b" by (simp add: s_def)
    then have "fl ?b \<le> s * (1 + 1 / 2 ^ 53)" using fl_rel(2)[OF b0] by simp
    then show ?thesis unfolding fs by (rule min.coboundedI2)
  qed
qed

lemma scaled_dim_bounds:
  assumes "0 \<le> s" "of_nat d * s \<le> 264"
    and "s * (1 - 1 / 2 ^ 53) \<le> sc" "sc \<le> s * (1 + 1 / 2 ^ 53)"
  shows "\<bar>fmul (of_nat d) sc - of_nat d * s\<bar> \<le> 1 / 2 ^ 40"
proof -
  define u :: rat where "u = 1 / 2 ^ 53"
  define t :: rat where "t = of_nat d * s"
  have u: "0 \<le> u" "u \<le> 1" by (simp_all add: u_def)
  have t: "0 \<le> t" "t \<le> 264" using assms(1,2) by (simp_all add: t_def)
  have d0: "(0::rat) \<le> of_nat d" by simp
  have sc0: "0 \<le> sc"
  proof -
    have "0 \<le> s * (1 - 1 / 2 ^ 53)" using assms(1) by simp
    then show ?thesis using assms(3) by linarith
  qed
  define y where "y = of_nat d * sc"
  have y0: "0 \<le> y" using sc0 by (simp add: y_def)
  have "of_nat d * (s * (1 - u)) \<le> of_nat d * sc"
    using assms(3) d0 unfolding u_def by (rule mult_left_mono)
  then have ylo: "t * (1 - u) \<le> y" by (simp add: t_def y_def algebra_simps)
  have "of_nat d * sc \<le> of_nat d * (s * (1 + u))"
    using assms(4) d0 unfolding u_def by (rule mult_left_mono)
  then have yhi: "y \<le> t * (1 + u)" by (simp add: t_def y_def algebra_simps)
  have f: "y * (1 - u) \<le> fl y" "fl y \<le> y * (1 + u)"
    using fl_rel[OF y0] by (simp_all add: u_def)
  have "t * (1 - u) * (1 - u) \<le> y * (1 - u)"
    using ylo u by (intro mult_right_mono) simp_all
  then have lo: "t * (1 - u) * (1 - u) \<le> fl y" using f(1) by linarith
  have "y * (1 + u) \<le> t * (1 + u) * (1 + u)"
    using yhi u by (intro mult_right_mono) simp_all
  then have hi: "fl y \<le> t * (1 + u) * (1 + u)" using f(2) by linarith
  have tu: "t * u \<le> 264 * u" using t(2) u(1) by (rule mult_right_mono)
  have uu: "u * u \<le> u" using u by (simp add: mult_left_le)
  have tuu: "t * (u * u) \<le> 264 * u"
  proof -
    have "t * (u * u) \<le> t * u" using uu t(1) by (rule mult_left_mono)
    then show ?thesis using tu by linarith
  qed
  have e1: "t * (1 + u) * (1 + u) = t + 2 * (t * u) + t * (u * u)" by (simp add: algebra_simps)
  have e2: "t * (1 - u) * (1 - u) = t - 2 * (t * u) + t * (u * u)" by (simp add: algebra_simps)
  have t0: "0 \<le> t * (u * u)" using t(1) u(1) by simp
  have "fl y \<le> t + 3 * (264 * u)" using hi tu tuu unfolding e1 by linarith
  moreover have "t - 2 * (264 * u) \<le> fl y" using lo tu t0 unfolding e2 by linarith
  moreover have "3 * (264 * u) \<le> 1 / 2 ^ 40" by (simp add: u_def)
  ultimately have "\<bar>fl y - t\<bar> \<le> 1 / 2 ^ 40" by linarith
  then show ?thesis by (simp add: fmul_def y_def t_def)
qed

lemma js_round_near:
  assumes "\<bar>x - of_int n\<bar> \<le> 1 / 2 ^ 40"
  shows "js_round x = n"
proof -
  have "(1::rat) / 2 ^ 40 < 1 / 2" by simp
  then have "of_int n \<le> x + 1 / 2" "x + 1 / 2 < of_int n + 1" using assms by linarith+
  then show ?thesis unfolding js_round_def by (rule floor_unique)
qed

lemma js_round_bounds: "\<bar>of_int (js_round x) - x\<bar> \<le> 1 / 2"
  unfolding js_round_def by linarith

lemma scaled_dims:
  assumes "0 < w" "0 < h"
  shows "\<bar>fmul (of_nat w) (fit_scale w h) - of_nat w * fit_scale_exact w h\<bar> \<le> 1 / 2 ^ 40"
    and "\<bar>fmul (of_nat h) (fit_scale w h) - of_nat h * fit_scale_exact w h\<bar> \<le> 1 / 2 ^ 40"
    and "of_nat w * fit_scale_exact w h \<le> 264"
    and "of_nat h * fit_scale_exact w h \<le> 264"
    and "of_nat w * fit_scale_exact w h = 264 \<or> of_nat h * fit_scale_exact w h = 264"
proof -
  let ?s = "fit_scale_exact w h"
  have wp: "(0::rat) < of_nat w" and hp: "(0::rat) < of_nat h" using assms by simp_all
  have s0: "0 \<le> ?s" by (simp add: fit_scale_exact_def)
  have "?s \<le> 264 / of_nat w" by (simp add: fit_scale_exact_def)
  then have "of_nat w * ?s \<le> of_nat w * (264 / of_nat w)"
    using wp by (intro mult_left_mono) simp_all
  then show w264: "of_nat w * ?s \<le> 264" using wp by simp
  have "?s \<le> 264 / of_nat h" by (simp add: fit_scale_exact_def)
  then have "of_nat h * ?s \<le> of_nat h * (264 / of_nat h)"
    using hp by (intro mult_left_mono) simp_all
  then show h264: "of_nat h * ?s \<le> 264" using hp by simp
  note b = fit_scale_bounds[OF assms]
  show "\<bar>fmul (of_nat w) (fit_scale w h) - of_nat w * ?s\<bar> \<le> 1 / 2 ^ 40"
    by (rule scaled_dim_bounds[OF s0 w264 b])
  show "\<bar>fmul (of_nat h) (fit_scale w h) - of_nat h * ?s\<bar> \<le> 1 / 2 ^ 40"
    by (rule scaled_dim_bounds[OF s0 h264 b])
  have "?s = 264 / of_nat w \<or> ?s = 264 / of_nat h"
    by (simp add: fit_scale_exact_def min_def)
  then show "of_nat w * ?s = 264 \<or> of_nat h * ?s = 264"
    using wp hp by auto
qed

lemma scaled_round:
  assumes "\<bar>y - t\<bar> \<le> 1 / 2 ^ 40" "0 \<le> t" "t \<le> 264"
  shows "\<bar>of_int (js_round y) - t\<bar> \<le> 1 / 2 + 1 / 2 ^ 40"
    and "0 \<le> js_round y" and "js_round y \<le> 264"
    and "t = 264 \<Longrightarrow> js_round y = 264"
proof -
  define e :: rat where "e = 1 / 2 ^ 40"
  have e: "\<bar>y - t\<bar> \<le> e" "e < 1 / 2" using assms(1) by (simp_all add: e_def)
  have "\<bar>of_int (js_round y) - y\<bar> \<le> 1 / 2" by (rule js_round_bounds)
  then have "\<bar>of_int (js_round y) - t\<bar> \<le> 1 / 2 + e" using e(1) by linarith
  then show "\<bar>of_int (js_round y) - t\<bar> \<le> 1 / 2 + 1 / 2 ^ 40" by (simp only: e_def)
  have "0 \<le> y + 1 / 2" using e assms(2) by linarith
  then have "(of_int 0 :: rat) \<le> y + 1 / 2" by simp
  then show "0 \<le> js_round y" unfolding js_round_def by (simp only: le_floor_iff)
  have "y + 1 / 2 < 265" using e assms(3) by linarith
  then have "y + 1 / 2 < of_int 265" by simp
  then have "js_round y < 265" unfolding js_round_def by (simp only: floor_less_iff)
  then show "js_round y \<le> 264" by simp
  show "js_round y = 264" if "t = 264"
  proof (rule js_round_near)
    show "\<bar>y - of_int 264\<bar> \<le> 1 / 2 ^ 40" using assms(1) that by simp
  qed
qed

text \<open>
  The box and the placement, for any image: the scaled width and height are the width
  and height times the exact factor \<open>min (264 / width) (264 / height)\<close>, each rounded
  to an integer (within \<open>1/2 + 2\<^sup>-\<^sup>4\<^sup>0\<close>, the \<open>2\<^sup>-\<^sup>4\<^sup>0\<close> covering the binary64 arithmetic); both
  fit in 264 and the larger one is 264; each offset is \<open>(432 - scaled) / 2\<close> rounded, a
  tie going up; and the canvas is 432 by 432, transparent.  The offsets are those of the
  box: they centre what the resize returns only when that has the size of the box.
\<close>

lemma fit_box:
  assumes "0 < w" "0 < h"
  defines "sw \<equiv> js_round (fmul (of_nat w) (fit_scale w h))"
  defines "sh \<equiv> js_round (fmul (of_nat h) (fit_scale w h))"
  shows "\<bar>of_int sw - of_nat w * fit_scale_exact w h\<bar> \<le> 1 / 2 + 1 / 2 ^ 40"
    and "\<bar>of_int sh - of_nat h * fit_scale_exact w h\<bar> \<le> 1 / 2 + 1 / 2 ^ 40"
    and "0 \<le> sw" and "0 \<le> sh" and "max sw sh = 264"
    and "center_offset sw = (432 - sw + 1) div 2"
    and "center_offset sh = (432 - sh + 1) div 2"
    and "prepareForAndroidAdaptiveIcon w h =
      (case resize_inside w h sw sh of
         Inl e \<Rightarrow> Inl e
       | Inr (rw, rh) \<Rightarrow>
           Inr \<lparr>canvasWidth = 432, canvasHeight = 432, canvasChannels = 4,
                canvasBackground = (0, 0, 0, 0), scaledWidth = sw, scaledHeight = sh,
                overlayWidth = rw, overlayHeight = rh,
                left_px = center_offset sw, top_px = center_offset sh\<rparr>)"
proof -
  note d = scaled_dims[OF assms(1,2)]
  have t0: "(0::rat) \<le> of_nat w * fit_scale_exact w h" "(0::rat) \<le> of_nat h * fit_scale_exact w h"
    by (simp_all add: fit_scale_exact_def)
  note rw = scaled_round[OF d(1) t0(1) d(3)]
  note rh = scaled_round[OF d(2) t0(2) d(4)]
  show "\<bar>of_int sw - of_nat w * fit_scale_exact w h\<bar> \<le> 1 / 2 + 1 / 2 ^ 40"
    unfolding sw_def by (rule rw(1))
  show "\<bar>of_int sh - of_nat h * fit_scale_exact w h\<bar> \<le> 1 / 2 + 1 / 2 ^ 40"
    unfolding sh_def by (rule rh(1))
  show sw0: "0 \<le> sw" unfolding sw_def by (rule rw(2))
  show sh0: "0 \<le> sh" unfolding sh_def by (rule rh(2))
  show "max sw sh = 264"
    unfolding sw_def sh_def using d(5) rw(3,4) rh(3,4) by (auto simp: max_def)
  have "sw \<le> 264" "sh \<le> 264" unfolding sw_def sh_def by (rule rw(3), rule rh(3))
  then show "center_offset sw = (432 - sw + 1) div 2" "center_offset sh = (432 - sh + 1) div 2"
    using sw0 sh0 by (simp_all add: center_offset_eq)
  show "prepareForAndroidAdaptiveIcon w h =
      (case resize_inside w h sw sh of
         Inl e \<Rightarrow> Inl e
       | Inr (rw, rh) \<Rightarrow>
           Inr \<lparr>canvasWidth = 432, canvasHeight = 432, canvasChannels = 4,
                canvasBackground = (0, 0, 0, 0), scaledWidth = sw, scaledHeight = sh,
                overlayWidth = rw, overlayHeight = rh,
                left_px = center_offset sw, top_px = center_offset sh\<rparr>)"
    unfolding prepareForAndroidAdaptiveIcon_def Let_def sw_def sh_def ANDROID_LAYER_SIZE_def
    by (rule refl)
qed

text \<open>
  Three images evaluated.  A thin image of 1000 by 5 pixels gets the box 264 by 1, in
  which the resize fits 200 by 1; one of 1000 by 1 pixels gets a box of height 0, which
  the resize refuses; and one of 720 by 75 pixels gets the box 264 by 27, in which the
  resize fits 259 by 27.
\<close>

lemma fit_thin:
  "prepareForAndroidAdaptiveIcon 1000 5 =
     Inr \<lparr>canvasWidth = 432, canvasHeight = 432, canvasChannels = 4,
          canvasBackground = (0, 0, 0, 0), scaledWidth = 264, scaledHeight = 1,
          overlayWidth = 200, overlayHeight = 1, left_px = 84, top_px = 216\<rparr>"
  "prepareForAndroidAdaptiveIcon 1000 1 = Inl (InvalidParameter ''height'' 0)"
  "prepareForAndroidAdaptiveIcon 720 75 =
     Inr \<lparr>canvasWidth = 432, canvasHeight = 432, canvasChannels = 4,
          canvasBackground = (0, 0, 0, 0), scaledWidth = 264, scaledHeight = 27,
          overlayWidth = 259, overlayHeight = 27, left_px = 84, top_px = 203\<rparr>"
  by (simp_all add: prepareForAndroidAdaptiveIcon_def resize_inside_def fit_scale_def
        center_offset_def ANDROID_LAYER_SIZE_def ANDROID_SAFE_AREA_def Let_def min_def max_def
        prog_eval del: One_nat_def)
section \<open>Rounding errors of one candidate\<close>

lemma fl_abs:
  assumes "\<bar>x\<bar> \<le> B"
  shows "\<bar>fl x - x\<bar> \<le> B / 2 ^ 53"
proof -
  have "\<bar>fl x - x\<bar> \<le> \<bar>x\<bar> / 2 ^ 53" by (rule fl_error)
  also have "\<dots> \<le> B / 2 ^ 53" using assms by (simp add: divide_right_mono)
  finally show ?thesis .
qed

lemma of_int_byte_bounds:
  assumes "0 \<le> n" "n \<le> 255"
  shows "(0::rat) \<le> of_int n" "(of_int n :: rat) \<le> 255"
proof -
  show "(0::rat) \<le> of_int n" using assms(1) by simp
  show "(of_int n :: rat) \<le> 255" using assms(2) by (metis of_int_le_iff of_int_numeral)
qed

lemma mix_bounds:
  fixes a x :: rat
  assumes "0 \<le> a" "a \<le> 1" "0 \<le> x" "x \<le> 255"
  shows "0 \<le> a * x" "a * x \<le> 255" "0 \<le> (1 - a) * x" "(1 - a) * x \<le> 255"
proof -
  show "0 \<le> a * x" using assms by simp
  have "a * x \<le> 1 * x" using assms by (intro mult_right_mono) simp_all
  then show "a * x \<le> 255" using assms by simp
  show "0 \<le> (1 - a) * x" using assms by simp
  have "(1 - a) * x \<le> 1 * x" using assms by (intro mult_right_mono) simp_all
  then show "(1 - a) * x \<le> 255" using assms by simp
qed

text \<open>The product \<open>(1 - \<alpha>) \<sqdot> bg\<close> of lines 103 and 114, with \<open>u = 2\<^sup>-\<^sup>5\<^sup>3\<close>.\<close>

lemma bg_part_error:
  assumes "0 \<le> \<alpha>" "\<alpha> \<le> 1" "0 \<le> b" "b \<le> 255"
  shows "\<bar>fmul (fsub 1 \<alpha>) (of_int b) - (1 - \<alpha>) * of_int b\<bar> \<le> 768 / 2 ^ 53"
proof -
  define u :: rat where "u = 1 / 2 ^ 53"
  have u: "0 \<le> u" "u \<le> 1" by (simp_all add: u_def)
  define a1 where "a1 = fsub 1 \<alpha>"
  note bb = of_int_byte_bounds[OF assms(3,4)]
  have "\<bar>1 - \<alpha>\<bar> \<le> 1" using assms(1,2) by simp
  from fl_abs[OF this] have a1: "\<bar>a1 - (1 - \<alpha>)\<bar> \<le> u" by (simp add: a1_def fsub_def u_def)
  then have a1b: "\<bar>a1\<bar> \<le> 2" using assms(1,2) u by linarith
  have "\<bar>a1 * of_int b\<bar> = \<bar>a1\<bar> * of_int b" using bb by (simp add: abs_mult)
  also have "\<dots> \<le> 2 * 255" using a1b bb by (intro mult_mono) simp_all
  finally have "\<bar>a1 * of_int b\<bar> \<le> 512" by simp
  from fl_abs[OF this] have 1: "\<bar>fmul a1 (of_int b) - a1 * of_int b\<bar> \<le> 512 * u"
    by (simp add: fmul_def u_def)
  have "\<bar>a1 * of_int b - (1 - \<alpha>) * of_int b\<bar> = \<bar>a1 - (1 - \<alpha>)\<bar> * of_int b"
    using bb by (simp add: abs_mult left_diff_distrib[symmetric])
  also have "\<dots> \<le> u * 255" using a1 bb by (intro mult_mono) simp_all
  finally have 2: "\<bar>a1 * of_int b - (1 - \<alpha>) * of_int b\<bar> \<le> 255 * u" by simp
  have "\<bar>fmul a1 (of_int b) - (1 - \<alpha>) * of_int b\<bar> \<le> 768 * u"
    using 1 2 u by linarith
  then show ?thesis by (simp add: a1_def u_def)
qed


text \<open>The inverted foreground of line 103 against its exact value.\<close>

lemma testFg_error:
  assumes "1 / 128 \<le> \<alpha>" "\<alpha> \<le> 1" "0 \<le> f" "f \<le> 255" "0 \<le> b" "b \<le> 255"
  shows "\<bar>testFg f b \<alpha> - (of_int f - (1 - \<alpha>) * of_int b) / \<alpha>\<bar> \<le> 1 / 2 ^ 34"
proof -
  define u :: rat where "u = 1 / 2 ^ 53"
  have u: "0 \<le> u" "1280 * u \<le> 1" by (simp_all add: u_def)
  have a0: "0 \<le> \<alpha>" "0 < \<alpha>" using assms(1) by linarith+
  note ff = of_int_byte_bounds[OF assms(3,4)]
  note bb = of_int_byte_bounds[OF assms(5,6)]
  note mb = mix_bounds(3,4)[OF a0(1) assms(2) bb]
  define p where "p = fmul (fsub 1 \<alpha>) (of_int b)"
  define x where "x = of_int f - (1 - \<alpha>) * of_int b"
  have pe: "\<bar>p - (1 - \<alpha>) * of_int b\<bar> \<le> 768 * u"
    using bg_part_error[OF a0(1) assms(2,5,6)] by (simp add: p_def u_def)
  have xb: "\<bar>x\<bar> \<le> 255" using ff mb unfolding x_def by linarith
  have "\<bar>of_int f - p\<bar> \<le> 512" using pe xb u unfolding x_def by linarith
  from fl_abs[OF this] have qe: "\<bar>fsub (of_int f) p - (of_int f - p)\<bar> \<le> 512 * u"
    by (simp add: fsub_def u_def)
  define q where "q = fsub (of_int f) p"
  have qx: "\<bar>q - x\<bar> \<le> 1280 * u" using qe pe unfolding q_def x_def by linarith
  then have qb: "\<bar>q\<bar> \<le> 256" using xb u by linarith
  have inv: "1 / \<alpha> \<le> 128" using assms(1) a0(2) by (simp add: field_simps)
  have inv0: "0 \<le> 1 / \<alpha>" using a0(2) by simp
  have "\<bar>q / \<alpha>\<bar> = \<bar>q\<bar> * (1 / \<alpha>)" using a0(2) by simp
  also have "\<dots> \<le> 256 * 128" using qb inv inv0 by (intro mult_mono) simp_all
  finally have "\<bar>q / \<alpha>\<bar> \<le> 32768" by simp
  from fl_abs[OF this] have re: "\<bar>fdiv q \<alpha> - q / \<alpha>\<bar> \<le> 32768 * u"
    by (simp add: fdiv_def u_def)
  have "\<bar>q / \<alpha> - x / \<alpha>\<bar> = \<bar>q - x\<bar> * (1 / \<alpha>)"
    using a0(2) by (simp add: diff_divide_distrib[symmetric])
  also have "\<dots> \<le> (1280 * u) * 128" using qx inv inv0 by (intro mult_mono) simp_all
  finally have de: "\<bar>q / \<alpha> - x / \<alpha>\<bar> \<le> 163840 * u" by simp
  have "\<bar>fdiv q \<alpha> - x / \<alpha>\<bar> \<le> 196608 * u" using re de by linarith
  moreover have "196608 * u \<le> 1 / 2 ^ 34" by (simp add: u_def)
  ultimately have "\<bar>fdiv q \<alpha> - x / \<alpha>\<bar> \<le> 1 / 2 ^ 34" by linarith
  then show ?thesis by (simp only: testFg_def q_def p_def x_def)
qed

lemma clampedFg_range: "0 \<le> clampedFg f b \<alpha>" "clampedFg f b \<alpha> \<le> 255"
  by (simp_all add: clampedFg_def)

text \<open>The recomposition of lines 114 and 119 against its exact value.\<close>

lemma recomposed_error:
  assumes "0 \<le> \<alpha>" "\<alpha> \<le> 1" "0 \<le> f" "f \<le> 255" "0 \<le> b" "b \<le> 255" "0 \<le> c" "c \<le> 255"
  shows "\<bar>fsub (recomposed c b \<alpha>) (of_int f)
           - (\<alpha> * of_int c + (1 - \<alpha>) * of_int b - of_int f)\<bar> \<le> 1 / 2 ^ 42"
proof -
  define u :: rat where "u = 1 / 2 ^ 53"
  have u: "0 \<le> u" "1536 * u \<le> 1" by (simp_all add: u_def)
  note ff = of_int_byte_bounds[OF assms(3,4)]
  note bb = of_int_byte_bounds[OF assms(5,6)]
  note cc = of_int_byte_bounds[OF assms(7,8)]
  note mb = mix_bounds(3,4)[OF assms(1,2) bb]
  note mc = mix_bounds(1,2)[OF assms(1,2) cc]
  define p where "p = fmul (fsub 1 \<alpha>) (of_int b)"
  define m where "m = fmul \<alpha> (of_int c)"
  have pe: "\<bar>p - (1 - \<alpha>) * of_int b\<bar> \<le> 768 * u"
    using bg_part_error[OF assms(1,2,5,6)] by (simp add: p_def u_def)
  have "\<bar>\<alpha> * of_int c\<bar> \<le> 256" using mc by simp
  from fl_abs[OF this] have me: "\<bar>m - \<alpha> * of_int c\<bar> \<le> 256 * u"
    by (simp add: m_def fmul_def u_def)
  have "\<bar>m + p\<bar> \<le> 512" using me pe mb mc u by linarith
  from fl_abs[OF this] have se: "\<bar>fadd m p - (m + p)\<bar> \<le> 512 * u"
    by (simp add: fadd_def u_def)
  define rc where "rc = fadd m p"
  define x where "x = \<alpha> * of_int c + (1 - \<alpha>) * of_int b"
  have rx: "\<bar>rc - x\<bar> \<le> 1536 * u" using se me pe unfolding rc_def x_def by linarith
  have xb: "0 \<le> x" "x \<le> 255"
  proof -
    show "0 \<le> x" using mb mc by (simp add: x_def)
    have "\<alpha> * of_int c \<le> \<alpha> * 255" using cc assms(1) by (intro mult_left_mono) simp_all
    moreover have "(1 - \<alpha>) * of_int b \<le> (1 - \<alpha>) * 255"
      using bb assms(2) by (intro mult_left_mono) simp_all
    moreover have "\<alpha> * 255 + (1 - \<alpha>) * 255 = 255" by (simp add: algebra_simps)
    ultimately show "x \<le> 255" unfolding x_def by linarith
  qed
  have "\<bar>rc - of_int f\<bar> \<le> 256" using rx xb ff u by linarith
  from fl_abs[OF this] have "\<bar>fsub rc (of_int f) - (rc - of_int f)\<bar> \<le> 256 * u"
    by (simp add: fsub_def u_def)
  then have "\<bar>fsub rc (of_int f) - (x - of_int f)\<bar> \<le> 1792 * u" using rx by linarith
  moreover have "1792 * u \<le> 1 / 2 ^ 42" by (simp add: u_def)
  ultimately have "\<bar>fsub rc (of_int f) - (x - of_int f)\<bar> \<le> 1 / 2 ^ 42" by linarith
  then show ?thesis by (simp only: recomposed_def rc_def m_def p_def x_def)
qed

lemma channel_error_approx:
  assumes "0 \<le> \<alpha>" "\<alpha> \<le> 1" "0 \<le> f" "f \<le> 255" "0 \<le> b" "b \<le> 255"
  shows "\<bar>channel_error f b \<alpha> - exact_channel_error f b \<alpha>\<bar> \<le> 1 / 2 ^ 42"
    and "0 \<le> channel_error f b \<alpha>"
proof -
  have "\<bar>fsub (recomposed (clampedFg f b \<alpha>) b \<alpha>) (of_int f)
           - (\<alpha> * of_int (clampedFg f b \<alpha>) + (1 - \<alpha>) * of_int b - of_int f)\<bar> \<le> 1 / 2 ^ 42"
    by (rule recomposed_error[OF assms clampedFg_range])
  then show "\<bar>channel_error f b \<alpha> - exact_channel_error f b \<alpha>\<bar> \<le> 1 / 2 ^ 42"
    unfolding channel_error_def exact_channel_error_def by linarith
  show "0 \<le> channel_error f b \<alpha>" by (simp add: channel_error_def)
qed

lemma exact_channel_error_le:
  assumes "0 \<le> \<alpha>" "\<alpha> \<le> 1" "0 \<le> f" "f \<le> 255" "0 \<le> b" "b \<le> 255"
  shows "exact_channel_error f b \<alpha> \<le> 255"
proof -
  note ff = of_int_byte_bounds[OF assms(3,4)]
  note bb = of_int_byte_bounds[OF assms(5,6)]
  note cc = of_int_byte_bounds[OF clampedFg_range[of f b \<alpha>]]
  note mb = mix_bounds(3,4)[OF assms(1,2) bb]
  have "\<alpha> * of_int (clampedFg f b \<alpha>) \<le> \<alpha> * 255"
    using cc assms(1) by (intro mult_left_mono) simp_all
  moreover have "(1 - \<alpha>) * of_int b \<le> (1 - \<alpha>) * 255"
    using bb assms(2) by (intro mult_left_mono) simp_all
  moreover have "\<alpha> * 255 + (1 - \<alpha>) * 255 = 255" by (simp add: algebra_simps)
  moreover have "0 \<le> \<alpha> * of_int (clampedFg f b \<alpha>)" using cc assms(1) by simp
  ultimately show ?thesis unfolding exact_channel_error_def using mb ff by linarith
qed

lemma recon_error_approx:
  assumes "0 \<le> \<alpha>" "\<alpha> \<le> 1"
    and "0 \<le> fR" "fR \<le> 255" "0 \<le> bR" "bR \<le> 255"
    and "0 \<le> fG" "fG \<le> 255" "0 \<le> bG" "bG \<le> 255"
    and "0 \<le> fB" "fB \<le> 255" "0 \<le> bB" "bB \<le> 255"
  shows "\<bar>recon_error fR fG fB bR bG bB \<alpha>
           - (exact_channel_error fR bR \<alpha> + exact_channel_error fG bG \<alpha>
              + exact_channel_error fB bB \<alpha>)\<bar> \<le> 1 / 2 ^ 40"
proof -
  define u :: rat where "u = 1 / 2 ^ 53"
  have u: "0 \<le> u" "8192 * u \<le> 1" by (simp_all add: u_def)
  define e where "e = (1 :: rat) / 2 ^ 42"
  have e: "e = 2048 * u" by (simp add: e_def u_def)
  note r = channel_error_approx[OF assms(1,2) assms(3,4,5,6)]
  note g = channel_error_approx[OF assms(1,2) assms(7,8,9,10)]
  note b = channel_error_approx[OF assms(1,2) assms(11,12,13,14)]
  note xr = exact_channel_error_le[OF assms(1,2) assms(3,4,5,6)]
  note xg = exact_channel_error_le[OF assms(1,2) assms(7,8,9,10)]
  note xb = exact_channel_error_le[OF assms(1,2) assms(11,12,13,14)]
  define cr where "cr = channel_error fR bR \<alpha>"
  define cg where "cg = channel_error fG bG \<alpha>"
  define cb where "cb = channel_error fB bB \<alpha>"
  have cre: "\<bar>cr - exact_channel_error fR bR \<alpha>\<bar> \<le> e" "0 \<le> cr"
    using r by (simp_all add: cr_def e_def)
  have cge: "\<bar>cg - exact_channel_error fG bG \<alpha>\<bar> \<le> e" "0 \<le> cg"
    using g by (simp_all add: cg_def e_def)
  have cbe: "\<bar>cb - exact_channel_error fB bB \<alpha>\<bar> \<le> e" "0 \<le> cb"
    using b by (simp_all add: cb_def e_def)
  have "\<bar>cr + cg\<bar> \<le> 512" using cre cge xr xg e u by linarith
  from fl_abs[OF this] have s1: "\<bar>fadd cr cg - (cr + cg)\<bar> \<le> 512 * u"
    by (simp add: fadd_def u_def)
  have "\<bar>fadd cr cg + cb\<bar> \<le> 1024" using s1 cre cge cbe xr xg xb e u by linarith
  from fl_abs[OF this] have s2: "\<bar>fadd (fadd cr cg) cb - (fadd cr cg + cb)\<bar> \<le> 1024 * u"
    by (simp add: fadd_def u_def)
  have "\<bar>fadd (fadd cr cg) cb
        - (exact_channel_error fR bR \<alpha> + exact_channel_error fG bG \<alpha>
           + exact_channel_error fB bB \<alpha>)\<bar> \<le> 7680 * u"
    using s1 s2 cre(1) cge(1) cbe(1) e by linarith
  moreover have "7680 * u \<le> 1 / 2 ^ 40" by (simp add: u_def)
  ultimately have "\<bar>fadd (fadd cr cg) cb
        - (exact_channel_error fR bR \<alpha> + exact_channel_error fG bG \<alpha>
           + exact_channel_error fB bB \<alpha>)\<bar> \<le> 1 / 2 ^ 40"
    by linarith
  then show ?thesis by (simp only: recon_error_def cr_def cg_def cb_def)
qed

lemma js_round_eq:
  assumes "- 1 / 2 \<le> x - of_int n" "x - of_int n < 1 / 2"
  shows "js_round x = n"
proof -
  have "of_int n \<le> x + 1 / 2" "x + 1 / 2 < of_int n + 1" using assms by linarith+
  then show ?thesis unfolding js_round_def by (rule floor_unique)
qed

text \<open>Equal colours: every candidate recovers the colour and reconstructs it.\<close>

lemma same_colour_channel:
  assumes "1 / 128 \<le> \<alpha>" "\<alpha> \<le> 1" "0 \<le> b" "b \<le> 255"
  shows "clampedFg b b \<alpha> = b" "exact_channel_error b b \<alpha> = 0"
proof -
  have a0: "0 < \<alpha>" using assms(1) by linarith
  have "(of_int b - (1 - \<alpha>) * of_int b) / \<alpha> = (\<alpha> * of_int b) / \<alpha>"
    by (simp add: algebra_simps)
  also have "\<dots> = of_int b" using a0 by simp
  finally have x: "(of_int b - (1 - \<alpha>) * of_int b) / \<alpha> = of_int b" .
  have "\<bar>testFg b b \<alpha> - of_int b\<bar> \<le> 1 / 2 ^ 34"
    using testFg_error[OF assms(1,2) assms(3,4) assms(3,4)] by (simp only: x)
  moreover have "(1::rat) / 2 ^ 34 < 1 / 2" by simp
  ultimately have "- 1 / 2 \<le> testFg b b \<alpha> - of_int b" "testFg b b \<alpha> - of_int b < 1 / 2"
    by linarith+
  then have "js_round (testFg b b \<alpha>) = b" by (rule js_round_eq)
  then show c: "clampedFg b b \<alpha> = b" using assms(3,4) by (simp add: clampedFg_def)
  show "exact_channel_error b b \<alpha> = 0"
    by (simp add: exact_channel_error_def c algebra_simps)
qed

lemma same_colour_error:
  assumes "1 / 128 \<le> \<alpha>" "\<alpha> \<le> 1"
    and "0 \<le> bR" "bR \<le> 255" "0 \<le> bG" "bG \<le> 255" "0 \<le> bB" "bB \<le> 255"
  shows "recon_error bR bG bB bR bG bB \<alpha> \<le> 1 / 2 ^ 40"
proof -
  have a0: "0 \<le> \<alpha>" using assms(1) by linarith
  have "\<bar>recon_error bR bG bB bR bG bB \<alpha>
           - (exact_channel_error bR bR \<alpha> + exact_channel_error bG bG \<alpha>
              + exact_channel_error bB bB \<alpha>)\<bar> \<le> 1 / 2 ^ 40"
    by (rule recon_error_approx[OF a0 assms(2) assms(3,4,3,4) assms(5,6,5,6) assms(7,8,7,8)])
  then show ?thesis
    by (simp add: same_colour_channel(2)[OF assms(1,2)] assms)
qed

text \<open>A candidate close to 1 reconstructs any pixel pair within 18.\<close>

lemma late_channel:
  assumes "989 / 1000 \<le> \<alpha>" "\<alpha> \<le> 1" "0 \<le> f" "f \<le> 255" "0 \<le> b" "b \<le> 255"
  shows "exact_channel_error f b \<alpha> \<le> 59 / 10"
proof -
  have a0: "0 < \<alpha>" "0 \<le> \<alpha>" "1 / 128 \<le> \<alpha>" using assms(1) by linarith+
  note ff = of_int_byte_bounds[OF assms(3,4)]
  note bb = of_int_byte_bounds[OF assms(5,6)]
  define F :: rat where "F = of_int f"
  define B :: rat where "B = of_int b"
  define x where "x = (F - (1 - \<alpha>) * B) / \<alpha>"
  have fb: "\<bar>F - B\<bar> \<le> 255" using ff bb unfolding F_def B_def by linarith
  have na: "0 \<le> 1 - \<alpha>" "1 - \<alpha> \<le> 11 / 1000" using assms(1,2) by linarith+
  have "\<bar>(1 - \<alpha>) * (F - B)\<bar> = (1 - \<alpha>) * \<bar>F - B\<bar>" using na by (simp add: abs_mult)
  also have "\<dots> \<le> 11 / 1000 * 255" using na fb by (intro mult_mono) simp_all
  finally have d: "\<bar>(1 - \<alpha>) * (F - B)\<bar> \<le> 2805 / 1000" by simp
  have "(x - F) * \<alpha> = (1 - \<alpha>) * (F - B)"
    using a0(1) by (simp add: x_def field_simps)
  then have "\<bar>x - F\<bar> * \<alpha> = \<bar>(1 - \<alpha>) * (F - B)\<bar>"
    using a0(2) by (metis abs_mult abs_of_nonneg)
  then have xa: "\<bar>x - F\<bar> * \<alpha> \<le> 2805 / 1000" using d by simp
  define dx where "dx = \<bar>x - F\<bar>"
  define dxa where "dxa = dx * \<alpha>"
  have "dx * (989 / 1000) \<le> dx * \<alpha>"
    using assms(1) unfolding dx_def by (intro mult_left_mono) simp_all
  then have "dx * (989 / 1000) \<le> dxa" by (simp add: dxa_def)
  moreover have "dxa \<le> 2805 / 1000" using xa by (simp add: dxa_def dx_def)
  ultimately have "dx \<le> 284 / 100" by linarith
  then have xf: "\<bar>x - F\<bar> \<le> 284 / 100" by (simp add: dx_def)
  have te: "\<bar>testFg f b \<alpha> - x\<bar> \<le> 1 / 2 ^ 34"
    using testFg_error[OF a0(3) assms(2,3,4,5,6)] by (simp only: x_def F_def B_def)
  define n where "n = js_round (testFg f b \<alpha>)"
  have "\<bar>of_int n - testFg f b \<alpha>\<bar> \<le> 1 / 2" unfolding n_def by (rule js_round_bounds)
  moreover have "(1::rat) / 2 ^ 34 \<le> 1 / 100" by simp
  ultimately have "\<bar>(of_int n :: rat) - of_int f\<bar> \<le> 335 / 100"
    using te xf unfolding F_def by linarith
  then have "\<bar>(of_int (n - f) :: rat)\<bar> < of_int 4" by simp
  then have "\<bar>n - f\<bar> < 4" by (simp only: of_int_abs[symmetric] of_int_less_iff)
  then have nf: "\<bar>n - f\<bar> \<le> 3" by simp
  define c where "c = clampedFg f b \<alpha>"
  have "c = max 0 (min 255 n)" by (simp add: c_def clampedFg_def n_def)
  then have "\<bar>c - f\<bar> \<le> 3" using nf assms(3,4) by (simp add: max_def min_def) linarith
  then have "\<bar>(of_int (c - f) :: rat)\<bar> \<le> of_int 3"
    by (simp only: of_int_abs[symmetric] of_int_le_iff)
  then have cf: "\<bar>of_int c - F\<bar> \<le> 3" by (simp add: F_def)
  have e: "\<alpha> * of_int c + (1 - \<alpha>) * B - F = \<alpha> * (of_int c - F) + (1 - \<alpha>) * (B - F)"
    by (simp add: algebra_simps)
  have "\<bar>\<alpha> * (of_int c - F)\<bar> = \<alpha> * \<bar>of_int c - F\<bar>" using a0(2) by (simp add: abs_mult)
  also have "\<dots> \<le> 1 * 3" using assms(2) a0(2) cf by (intro mult_mono) simp_all
  finally have 1: "\<bar>\<alpha> * (of_int c - F)\<bar> \<le> 3" by simp
  have "\<bar>(1 - \<alpha>) * (B - F)\<bar> = (1 - \<alpha>) * \<bar>F - B\<bar>"
    using na by (simp add: abs_mult abs_minus_commute)
  also have "\<dots> \<le> 11 / 1000 * 255" using na fb by (intro mult_mono) simp_all
  finally have 2: "\<bar>(1 - \<alpha>) * (B - F)\<bar> \<le> 2805 / 1000" by simp
  have "\<bar>\<alpha> * of_int c + (1 - \<alpha>) * B - F\<bar> \<le> 59 / 10"
    unfolding e using 1 2 by linarith
  then show ?thesis by (simp only: exact_channel_error_def c_def F_def B_def)
qed

lemma late_error:
  assumes "989 / 1000 \<le> \<alpha>" "\<alpha> \<le> 1"
    and "0 \<le> fR" "fR \<le> 255" "0 \<le> bR" "bR \<le> 255"
    and "0 \<le> fG" "fG \<le> 255" "0 \<le> bG" "bG \<le> 255"
    and "0 \<le> fB" "fB \<le> 255" "0 \<le> bB" "bB \<le> 255"
  shows "recon_error fR fG fB bR bG bB \<alpha> \<le> 18"
proof -
  have a0: "0 \<le> \<alpha>" using assms(1) by linarith
  have "\<bar>recon_error fR fG fB bR bG bB \<alpha>
           - (exact_channel_error fR bR \<alpha> + exact_channel_error fG bG \<alpha>
              + exact_channel_error fB bB \<alpha>)\<bar> \<le> 1 / 2 ^ 40"
    by (rule recon_error_approx[OF a0 assms(2-14)])
  moreover note late_channel[OF assms(1,2) assms(3,4,5,6)]
    late_channel[OF assms(1,2) assms(7,8,9,10)]
    late_channel[OF assms(1,2) assms(11,12,13,14)]
  moreover have "(1::rat) / 2 ^ 40 \<le> 1 / 10" by simp
  ultimately show ?thesis by linarith
qed

section \<open>The result of the scan\<close>

lemma uint_word_of_int_byte:
  assumes "0 \<le> n" "n \<le> 255"
  shows "uint (word_of_int n :: byte) = n"
  using assms by (simp add: uint_word_of_int take_bit_int_eq_self)

lemma alpha_byte_range:
  assumes "0 \<le> \<alpha>" "\<alpha> \<le> 1"
  shows "0 \<le> js_round (fmul \<alpha> 255)" "js_round (fmul \<alpha> 255) \<le> 255"
proof -
  have x0: "0 \<le> \<alpha> * 255" using assms(1) by simp
  have x1: "\<alpha> * 255 \<le> 255" using assms(2) by simp
  have "0 \<le> fl (\<alpha> * 255)" by (rule fl_nonneg[OF x0])
  then have "(of_int 0 :: rat) \<le> fmul \<alpha> 255 + 1 / 2" by (simp add: fmul_def)
  then show "0 \<le> js_round (fmul \<alpha> 255)" unfolding js_round_def by (simp only: le_floor_iff)
  have "(\<alpha> * 255) / 2 ^ 53 \<le> 255 / 2 ^ 53" using x1 by (simp add: divide_right_mono)
  then have "fl (\<alpha> * 255) \<le> 255 + 255 / 2 ^ 53" using fl_upper[OF x0] x1 by linarith
  moreover have "(255::rat) / 2 ^ 53 < 1 / 2" by simp
  ultimately have "fmul \<alpha> 255 + 1 / 2 < 256" by (simp add: fmul_def)
  then have "fmul \<alpha> 255 + 1 / 2 < of_int 256" by simp
  then have "js_round (fmul \<alpha> 255) < 256" unfolding js_round_def by (simp only: floor_less_iff)
  then show "js_round (fmul \<alpha> 255) \<le> 255" by simp
qed

text \<open>
  The whole scan of one pixel pair: the candidates \<open>0, \<dots>, k\<close> are examined, and the
  state it ends in is the candidate \<open>j\<close>, the first of least error among them.
\<close>

lemma scan_pixel_best:
  fixes fullR fullG fullB fullA bgR bgG bgB bgA :: byte
  defines "a \<equiv> scan_start (maxAbsDiff (fullR, fullG, fullB, fullA) (bgR, bgG, bgB, bgA))"
  defines "E \<equiv> \<lambda>n. recon_error (uint fullR) (uint fullG) (uint fullB) (uint bgR) (uint bgG) (uint bgB)
                (cand a n)"
  shows "\<exists>k j. j \<le> k \<and> k < 128
    \<and> (\<forall>n\<le>k. 0 < cand a n \<and> cand a n \<le> 1) \<and> (\<forall>n<k. cand a n < cand a (Suc n))
    \<and> (\<forall>n<k. \<not> E n < lit_0_1) \<and> (E k < lit_0_1 \<or> \<not> cand a (Suc k) \<le> 1)
    \<and> (\<forall>n\<le>k. E j \<le> E n) \<and> (\<forall>n<j. E j < E n)
    \<and> E j \<le> 18
    \<and> scan_pixel (fullR, fullG, fullB, fullA) (bgR, bgG, bgB, bgA) =
        Some (candidate (uint fullR) (uint fullG) (uint fullB) (uint bgR) (uint bgG) (uint bgB)
          (cand a j))"
proof -
  have r: "0 < a" "a \<le> 1"
    unfolding a_def by (rule scan_start_range[OF maxAbsDiff_range])+
  obtain k where k: "\<forall>n\<le>k. cand a n \<le> 1" "\<forall>n<k. \<not> E n < lit_0_1"
    "E k < lit_0_1 \<or> \<not> cand a (Suc k) \<le> 1"
    "scan_pixel (fullR, fullG, fullB, fullA) (bgR, bgG, bgB, bgA) =
      Some (scan_upto (uint fullR) (uint fullG) (uint fullB) (uint bgR) (uint bgG) (uint bgB) a
        (scan_init a) k)"
    using scan_pixel_result[of fullR fullG fullB fullA bgR bgG bgB bgA]
    unfolding a_def E_def by blast
  obtain j where j: "j \<le> k" "\<forall>n\<le>k. E j \<le> E n" "\<forall>n<j. E j < E n"
    "scan_upto (uint fullR) (uint fullG) (uint fullB) (uint bgR) (uint bgG) (uint bgB) a
        (scan_init a) k =
      candidate (uint fullR) (uint fullG) (uint fullB) (uint bgR) (uint bgG) (uint bgB) (cand a j)"
    using scan_upto_best[of k "uint fullR" "uint fullG" "uint fullB" "uint bgR" "uint bgG" "uint bgB" a a]
    unfolding E_def by blast
  have k128: "k < 128" by (rule cand_count[OF r(1) k(1)])
  have lt: "\<forall>n<k. cand a n \<le> 1" using k(1) by simp
  have pos: "\<forall>n\<le>k. 0 < cand a n \<and> cand a n \<le> 1"
  proof (intro allI impI)
    fix n assume n: "n \<le> k"
    then have "\<forall>m<n. cand a m \<le> 1" using k(1) by simp
    from cand_lower[OF less_imp_le[OF r(1)] this] have "a + of_nat n / 128 \<le> cand a n" .
    moreover have "(0::rat) \<le> of_nat n / 128" by simp
    ultimately have "0 < cand a n" using r(1) by linarith
    then show "0 < cand a n \<and> cand a n \<le> 1" using k(1) n by simp
  qed
  have inc: "\<forall>n<k. cand a n < cand a (Suc n)"
    using cand_increasing[OF less_imp_le[OF r(1)] lt] by blast
  have "E k \<le> 18"
  proof (cases "E k < lit_0_1")
    case True
    then show ?thesis using lit_0_1_bounds(2) by linarith
  next
    case False
    then have big: "\<not> cand a (Suc k) \<le> 1" using k(3) by simp
    have ck: "0 < cand a k" "cand a k \<le> 1" using pos by simp_all
    have "cand a (Suc k) \<le> cand a k + 102 / 10000"
      unfolding cand_Suc by (rule alpha_step_upper[OF less_imp_le[OF ck(1)] ck(2)])
    then have lo: "989 / 1000 \<le> cand a k" using big by linarith
    show ?thesis
      unfolding E_def
      by (rule late_error[OF lo ck(2)]) (rule uint_byte_range)+
  qed
  then have "E j \<le> 18" using j(2) by (metis order_refl order_trans)
  then show ?thesis
    using j(1,2,3) k128 pos inc k(2,3) k(4)[unfolded j(4)] by blast
qed

text \<open>
  No scan ends with a best error above 30: it stops early on an error below 0.1, or its
  last candidate is above 0.989 and reconstructs within 18.  The override of lines 136
  to 140 is therefore never taken.
\<close>

lemma noise_rejection_unreachable:
  assumes "scan_pixel full bg = Some st"
  shows "\<not> error_greater (bestError st) 30"
proof -
  obtain fr fg fb fa where f: "full = (fr, fg, fb, fa)" by (cases full)
  obtain br bg' bb ba where b: "bg = (br, bg', bb, ba)" by (cases bg)
  define e where "e = (\<lambda>j. recon_error (uint fr) (uint fg) (uint fb) (uint br) (uint bg') (uint bb)
       (cand (scan_start (maxAbsDiff (fr, fg, fb, fa) (br, bg', bb, ba))) j))"
  obtain j where j: "e j \<le> 18"
    "scan_pixel (fr, fg, fb, fa) (br, bg', bb, ba) =
        Some (candidate (uint fr) (uint fg) (uint fb) (uint br) (uint bg') (uint bb)
          (cand (scan_start (maxAbsDiff (fr, fg, fb, fa) (br, bg', bb, ba))) j))"
    using scan_pixel_best[of fr fg fb fa br bg' bb ba] unfolding e_def by blast
  have "Some st = Some (candidate (uint fr) (uint fg) (uint fb) (uint br) (uint bg') (uint bb)
          (cand (scan_start (maxAbsDiff (fr, fg, fb, fa) (br, bg', bb, ba))) j))"
    using assms j(2) by (simp only: f b)
  then have "bestError st = Finite (e j)" by (simp add: candidate_def e_def)
  then show ?thesis using j(1) by simp
qed

lemma extract_pixel_foreground:
  assumes "\<not> maxDiff full bg < threshold"
  shows "extract_pixel full bg =
    map_option (\<lambda>st. emit_pixel st (maxAbsDiff full bg)) (scan_pixel full bg)"
  using assms by (simp add: extract_pixel_def split: option.splits)

lemma emit_candidate:
  assumes "0 \<le> \<alpha>" "\<alpha> \<le> 1" "recon_error fR fG fB bR bG bB \<alpha> \<le> 18"
  shows "\<exists>r g b al. emit_pixel (candidate fR fG fB bR bG bB \<alpha>) mad = (r, g, b, al)
    \<and> uint r = clampedFg fR bR \<alpha> \<and> uint g = clampedFg fG bG \<alpha> \<and> uint b = clampedFg fB bB \<alpha>
    \<and> uint al = js_round (fmul \<alpha> 255)"
proof -
  have "\<not> error_greater (bestError (candidate fR fG fB bR bG bB \<alpha>)) 30"
    using assms(3) by (simp add: candidate_def)
  then have "emit_pixel (candidate fR fG fB bR bG bB \<alpha>) mad =
      (word_of_int (clampedFg fR bR \<alpha>), word_of_int (clampedFg fG bG \<alpha>),
       word_of_int (clampedFg fB bB \<alpha>), word_of_int (js_round (fmul \<alpha> 255)))"
    by (simp add: emit_pixel_def candidate_def)
  moreover have "uint (word_of_int (clampedFg f b \<alpha>) :: byte) = clampedFg f b \<alpha>" for f b
    by (rule uint_word_of_int_byte[OF clampedFg_range])
  moreover have "uint (word_of_int (js_round (fmul \<alpha> 255)) :: byte) = js_round (fmul \<alpha> 255)"
    by (rule uint_word_of_int_byte[OF alpha_byte_range[OF assms(1,2)]])
  ultimately show ?thesis by blast
qed

lemma scan_start_0: "scan_start 0 = lit_0_01"
proof -
  have "minAlpha 0 = 0" by (simp add: minAlpha_def fdiv_def fl_def)
  moreover have "0 < lit_0_01" using lit_0_01_bounds(1) by linarith
  ultimately show ?thesis by (simp add: scan_start_def max_def)
qed

lemma alpha_byte_0_01: "js_round (fmul lit_0_01 255) = 3"
  by (simp add: prog_eval)



text \<open>
  The scan as the code runs it.  For a pixel pair that is not pure background the scan
  starts at \<open>a = max(0.01, maxAbsDiff / 255)\<close> and examines the candidates
  \<open>cand a 0, \<dots>, cand a k\<close>, each the one before plus 0.01 (in binary64 arithmetic), all
  positive and at most 1 and increasing.  None before the last has an error below 0.1,
  and the scan stops at \<open>k\<close> because that candidate's error is below 0.1 or because the
  next candidate would exceed 1.  The emitted pixel comes from the candidate \<open>j\<close> of
  least error among these, the first such (hence the smallest alpha): its three clamped
  and rounded colours, and the alpha byte \<open>round(alpha \<sqdot> 255)\<close>.
\<close>

lemma alpha_search:
  fixes fullR fullG fullB fullA bgR bgG bgB bgA :: byte
  assumes "\<not> maxDiff (fullR, fullG, fullB, fullA) (bgR, bgG, bgB, bgA) < threshold"
  defines "a \<equiv> scan_start (maxAbsDiff (fullR, fullG, fullB, fullA) (bgR, bgG, bgB, bgA))"
  defines "E \<equiv> \<lambda>n. recon_error (uint fullR) (uint fullG) (uint fullB) (uint bgR) (uint bgG) (uint bgB)
                (cand a n)"
  shows "a = max lit_0_01
            (fdiv (of_int (maxAbsDiff (fullR, fullG, fullB, fullA) (bgR, bgG, bgB, bgA))) 255)
    \<and> (\<exists>k j. j \<le> k \<and> k < 128
      \<and> (\<forall>n\<le>k. 0 < cand a n \<and> cand a n \<le> 1) \<and> (\<forall>n<k. cand a n < cand a (Suc n))
      \<and> (\<forall>n<k. \<not> E n < lit_0_1) \<and> (E k < lit_0_1 \<or> \<not> cand a (Suc k) \<le> 1)
      \<and> (\<forall>n\<le>k. E j \<le> E n) \<and> (\<forall>n<j. E j < E n)
      \<and> (\<exists>r g b al. extract_pixel (fullR, fullG, fullB, fullA) (bgR, bgG, bgB, bgA)
                        = Some (r, g, b, al)
            \<and> uint r = clampedFg (uint fullR) (uint bgR) (cand a j)
            \<and> uint g = clampedFg (uint fullG) (uint bgG) (cand a j)
            \<and> uint b = clampedFg (uint fullB) (uint bgB) (cand a j)
            \<and> uint al = js_round (fmul (cand a j) 255)))"
proof -
  let ?full = "(fullR, fullG, fullB, fullA)" and ?bg = "(bgR, bgG, bgB, bgA)"
  obtain k j where kj: "j \<le> k" "k < 128"
    "\<forall>n\<le>k. 0 < cand a n \<and> cand a n \<le> 1" "\<forall>n<k. cand a n < cand a (Suc n)"
    "\<forall>n<k. \<not> E n < lit_0_1" "E k < lit_0_1 \<or> \<not> cand a (Suc k) \<le> 1"
    "\<forall>n\<le>k. E j \<le> E n" "\<forall>n<j. E j < E n" "E j \<le> 18"
    "scan_pixel ?full ?bg =
        Some (candidate (uint fullR) (uint fullG) (uint fullB) (uint bgR) (uint bgG) (uint bgB)
          (cand a j))"
    using scan_pixel_best[of fullR fullG fullB fullA bgR bgG bgB bgA]
    unfolding a_def E_def by blast
  have cj: "0 \<le> cand a j" "cand a j \<le> 1" using kj(1,3) by (simp_all add: less_imp_le)
  have ex: "extract_pixel ?full ?bg =
      Some (emit_pixel (candidate (uint fullR) (uint fullG) (uint fullB) (uint bgR) (uint bgG)
        (uint bgB) (cand a j)) (maxAbsDiff ?full ?bg))"
    unfolding extract_pixel_foreground[OF assms(1)] kj(10) by simp
  have "\<exists>r g b al. extract_pixel ?full ?bg = Some (r, g, b, al)
            \<and> uint r = clampedFg (uint fullR) (uint bgR) (cand a j)
            \<and> uint g = clampedFg (uint fullG) (uint bgG) (cand a j)
            \<and> uint b = clampedFg (uint fullB) (uint bgB) (cand a j)
            \<and> uint al = js_round (fmul (cand a j) 255)"
    using emit_candidate[OF cj kj(9)[unfolded E_def], of "maxAbsDiff ?full ?bg"]
    unfolding ex by simp
  then have "\<exists>k j. j \<le> k \<and> k < 128
      \<and> (\<forall>n\<le>k. 0 < cand a n \<and> cand a n \<le> 1) \<and> (\<forall>n<k. cand a n < cand a (Suc n))
      \<and> (\<forall>n<k. \<not> E n < lit_0_1) \<and> (E k < lit_0_1 \<or> \<not> cand a (Suc k) \<le> 1)
      \<and> (\<forall>n\<le>k. E j \<le> E n) \<and> (\<forall>n<j. E j < E n)
      \<and> (\<exists>r g b al. extract_pixel ?full ?bg = Some (r, g, b, al)
            \<and> uint r = clampedFg (uint fullR) (uint bgR) (cand a j)
            \<and> uint g = clampedFg (uint fullG) (uint bgG) (cand a j)
            \<and> uint b = clampedFg (uint fullB) (uint bgB) (cand a j)
            \<and> uint al = js_round (fmul (cand a j) 255))"
    using kj(1-8) by blast
  moreover have "a = max lit_0_01 (fdiv (of_int (maxAbsDiff ?full ?bg)) 255)"
    by (simp only: a_def scan_start_def minAlpha_def)
  ultimately show ?thesis by blast
qed

section \<open>Concrete pixels and rasters\<close>

lemma maxDiff_opaque: "\<not> maxDiff (255, 255, 255, a) (0, 0, 0, b) < threshold"
  by (simp add: threshold_def Let_def)

lemma scan_opaque:
  "scan_pixel (255, 255, 255, a) (0, 0, 0, b) =
     Some \<lparr>bestAlpha = 1, bestError = Finite 0, bestFgR = 255, bestFgG = 255, bestFgB = 255\<rparr>"
  apply (simp add: Let_def)
  apply (subst alpha_scan.simps, simp add: prog_eval)+
  apply (simp add: dy_def pow2_def)
  done

lemma extract_background_5: "extract_pixel (5, 5, 5, 255) (5, 5, 5, 255) = Some (0, 0, 0, 0)"
  by (simp add: extract_pixel_def threshold_def Let_def)

lemma extract_opaque_255:
  "extract_pixel (255, 255, 255, 255) (0, 0, 0, 255) = Some (255, 255, 255, 255)"
  unfolding extract_pixel_def
  by (simp add: maxDiff_opaque scan_opaque emit_pixel_def prog_eval
        del: maxDiff.simps scan_pixel.simps)

lemma run_example_1:
  "extractForeground
     \<lparr>width = 2, height = 1, data = [255, 255, 255, 255, 5, 5, 5, 255]\<rparr>
     \<lparr>width = 2, height = 1, data = [0, 0, 0, 255, 5, 5, 5, 255]\<rparr>
   = Some (Inr \<lparr>width = 2, height = 1, data = [255, 255, 255, 255, 0, 0, 0, 0]\<rparr>)"
  by (simp add: extractForeground_def pixel_loop.simps extract_opaque_255 extract_background_5
        numeral_eq_Suc)

lemma run_example_2:
  "extractForeground
     \<lparr>width = 2, height = 1, data = [255, 255, 255, 255, 255, 255, 255, 255]\<rparr>
     \<lparr>width = 2, height = 1, data = [0, 0, 0, 255, 0, 0, 0, 255]\<rparr>
   = Some (Inr \<lparr>width = 2, height = 1, data = [255, 255, 255, 255, 255, 255, 255, 255]\<rparr>)"
  by (simp add: extractForeground_def pixel_loop.simps extract_opaque_255 numeral_eq_Suc)


lemma scan_example_part1:
  "alpha_scan 222 173 182 255 255 255 (dy 5792865403049109 (- 54))
     (scan_init (dy 5792865403049109 (- 54))) =
   alpha_scan 222 173 182 255 255 255 (dy 5973009388143929 (- 54))
     \<lparr>bestAlpha = dy 5792865403049109 (- 54), bestError = Finite (dy 4521260802379776 (- 55)), bestFgR = 152, bestFgG = 0, bestFgB = 28\<rparr>"
  apply (subst alpha_scan.simps, simp add: prog_eval)+
  done

lemma scan_example_part2:
  "alpha_scan 222 173 182 255 255 255 (dy 5973009388143929 (- 54))
     \<lparr>bestAlpha = dy 5792865403049109 (- 54), bestError = Finite (dy 4521260802379776 (- 55)), bestFgR = 152, bestFgG = 0, bestFgB = 28\<rparr> =
   alpha_scan 222 173 182 255 255 255 (dy 4517728567377934 (- 53))
     \<lparr>bestAlpha = dy 5792865403049109 (- 54), bestError = Finite (dy 4521260802379776 (- 55)), bestFgR = 152, bestFgG = 0, bestFgB = 28\<rparr>"
  apply (subst alpha_scan.simps, simp add: prog_eval)+
  done

lemma scan_example_part3:
  "alpha_scan 222 173 182 255 255 255 (dy 4517728567377934 (- 53))
     \<lparr>bestAlpha = dy 5792865403049109 (- 54), bestError = Finite (dy 4521260802379776 (- 55)), bestFgR = 152, bestFgG = 0, bestFgB = 28\<rparr> =
   alpha_scan 222 173 182 255 255 255 (dy 6048952440683904 (- 53))
     \<lparr>bestAlpha = dy 5792865403049109 (- 54), bestError = Finite (dy 4521260802379776 (- 55)), bestFgR = 152, bestFgG = 0, bestFgB = 28\<rparr>"
  apply (subst alpha_scan.simps, simp add: prog_eval)+
  done

lemma scan_example_part4:
  "alpha_scan 222 173 182 255 255 255 (dy 6048952440683904 (- 53))
     \<lparr>bestAlpha = dy 5792865403049109 (- 54), bestError = Finite (dy 4521260802379776 (- 55)), bestFgR = 152, bestFgG = 0, bestFgB = 28\<rparr> =
   alpha_scan 222 173 182 255 255 255 (dy 7580176313989874 (- 53))
     \<lparr>bestAlpha = dy 5792865403049109 (- 54), bestError = Finite (dy 4521260802379776 (- 55)), bestFgR = 152, bestFgG = 0, bestFgB = 28\<rparr>"
  apply (subst alpha_scan.simps, simp add: prog_eval)+
  done

lemma scan_example_part5:
  "alpha_scan 222 173 182 255 255 255 (dy 7580176313989874 (- 53))
     \<lparr>bestAlpha = dy 5792865403049109 (- 54), bestError = Finite (dy 4521260802379776 (- 55)), bestFgR = 152, bestFgG = 0, bestFgB = 28\<rparr> =
   Some \<lparr>bestAlpha = dy 5792865403049109 (- 54), bestError = Finite (dy 4521260802379776 (- 55)), bestFgR = 152, bestFgG = 0, bestFgB = 28\<rparr>"
  apply (subst alpha_scan.simps, simp add: prog_eval)+
  done

lemma scan_example:
  "scan_pixel (222, 173, 182, a) (255, 255, 255, b) =
     Some \<lparr>bestAlpha = dy 5792865403049109 (- 54),
           bestError = Finite (dy 4521260802379776 (- 55)),
           bestFgR = 152, bestFgG = 0, bestFgB = 28\<rparr>"
proof -
  have "scan_start 82 = dy 5792865403049109 (- 54)"
    by (simp add: prog_eval)
  then show ?thesis
    by (simp add: Let_def scan_example_part1 scan_example_part2 scan_example_part3
          scan_example_part4 scan_example_part5)
qed

lemma maxDiff_example: "\<not> maxDiff (222, 173, 182, a) (255, 255, 255, b) < threshold"
  by (simp add: threshold_def Let_def)

lemma extract_example:
  "extract_pixel (222, 173, 182, a) (255, 255, 255, b) = Some (152, 0, 28, 82)"
  unfolding extract_pixel_def
  by (simp add: maxDiff_example scan_example emit_pixel_def prog_eval
        del: maxDiff.simps scan_pixel.simps)

text \<open>
  The candidates are produced by repeated binary64 addition, so a scan that starts at
  0.01 does not meet 1.0: its 99th candidate is just above 0.99 and the next one is
  above 1.
\<close>

lemma candidates_from_0_01:
  "cand lit_0_01 98 = dy 8917127262193588 (- 53)"
  "cand lit_0_01 98 < 1"
  "1 < cand lit_0_01 99"
proof -
  show a: "cand lit_0_01 98 = dy 8917127262193588 (- 53)"
    by (simp add: numeral_eq_Suc cand_Suc alphaStep_def lit_0_01_dy fadd_dy rnd_eval)
  then show "cand lit_0_01 98 < 1"
    by (simp add: dy_def pow2_def)
  have "cand lit_0_01 99 = fadd (cand lit_0_01 98) alphaStep"
    using cand_Suc[of lit_0_01 98] by simp
  also have "\<dots> = dy 4503599627370499 (- 52)"
    unfolding a by (simp add: alphaStep_def lit_0_01_dy fadd_dy rnd_eval)
  finally show "1 < cand lit_0_01 99"
    by (simp add: dy_def pow2_def)
qed

text \<open>
  An opaque \<open>(204, 0, 7)\<close> over black.  The scan starts at \<open>204 / 255\<close>, which is 0.8 in
  binary64, and runs through 20 candidates; none reaches an error below 0.1, and the
  last, just above 0.99, has the least.
\<close>

lemma scan_short_part1:
  "alpha_scan 204 0 7 0 0 0 (dy 7205759403792794 (- 53))
     (scan_init (dy 7205759403792794 (- 53))) =
   alpha_scan 204 0 7 0 0 0 (dy 8106479329266894 (- 53))
     \<lparr>bestAlpha = dy 7205759403792794 (- 53), bestError = Finite (dy 7205759403792800 (- 55)), bestFgR = 255, bestFgG = 0, bestFgB = 9\<rparr>"
  apply (subst alpha_scan.simps, simp add: prog_eval)+
  done

lemma scan_short_part2:
  "alpha_scan 204 0 7 0 0 0 (dy 8106479329266894 (- 53))
     \<lparr>bestAlpha = dy 7205759403792794 (- 53), bestError = Finite (dy 7205759403792800 (- 55)), bestFgR = 255, bestFgG = 0, bestFgB = 9\<rparr> =
   Some \<lparr>bestAlpha = dy 8917127262193584 (- 53), bestError = Finite (dy 4683743612463296 (- 55)), bestFgR = 206, bestFgG = 0, bestFgB = 7\<rparr>"
  apply (subst alpha_scan.simps, simp add: prog_eval)+
  done

lemma scan_short:
  "scan_pixel (204, 0, 7, a) (0, 0, 0, b) =
     Some \<lparr>bestAlpha = dy 8917127262193584 (- 53),
           bestError = Finite (dy 4683743612463296 (- 55)),
           bestFgR = 206, bestFgG = 0, bestFgB = 7\<rparr>"
proof -
  have "scan_start 204 = dy 7205759403792794 (- 53)"
    by (simp add: prog_eval)
  then show ?thesis
    by (simp add: Let_def scan_short_part1 scan_short_part2)
qed

lemma maxDiff_short: "\<not> maxDiff (204, 0, 7, a) (0, 0, 0, b) < threshold"
  by (simp add: threshold_def Let_def)

lemma extract_short:
  "extract_pixel (204, 0, 7, a) (0, 0, 0, b) = Some (206, 0, 7, 252)"
  unfolding extract_pixel_def
  by (simp add: maxDiff_short scan_short emit_pixel_def prog_eval
        del: maxDiff.simps scan_pixel.simps)

text \<open>
  The twentieth candidate from 0.8 is 0.9900000000000002 and the next sum is above 1: the
  scan that in decimal arithmetic would end at 1.0 does not examine it.
\<close>

lemma candidates_from_0_8:
  "minAlpha 204 = dy 7205759403792794 (- 53)"
  "cand (minAlpha 204) 19 = dy 8917127262193584 (- 53)"
  "cand (minAlpha 204) 19 < 1"
  "1 < cand (minAlpha 204) 20"
proof -
  show m: "minAlpha 204 = dy 7205759403792794 (- 53)"
    by (simp add: prog_eval)
  show a: "cand (minAlpha 204) 19 = dy 8917127262193584 (- 53)"
    unfolding m
    by (simp add: numeral_eq_Suc cand_Suc alphaStep_def lit_0_01_dy fadd_dy rnd_eval)
  then show "cand (minAlpha 204) 19 < 1"
    by (simp add: dy_def pow2_def)
  have "cand (minAlpha 204) 20 = fadd (cand (minAlpha 204) 19) alphaStep"
    using cand_Suc[of "minAlpha 204" 19] by simp
  also have "\<dots> = dy 4503599627370497 (- 52)"
    unfolding a by (simp add: alphaStep_def lit_0_01_dy fadd_dy rnd_eval)
  finally show "1 < cand (minAlpha 204) 20"
    by (simp add: dy_def pow2_def)
qed

text \<open>The candidate 1.0 for this pixel: it reconstructs exactly.\<close>

lemma at_one:
  "recon_error 204 0 7 0 0 0 1 = 0"
  "emit_pixel (candidate 204 0 7 0 0 0 1) 204 = (204, 0, 7, 255)"
proof -
  have d: "(1 :: rat) = dy 1 0" by (simp add: dy_def pow2_def)
  show e: "recon_error 204 0 7 0 0 0 1 = 0"
    unfolding d by (simp add: prog_eval)
  show "emit_pixel (candidate 204 0 7 0 0 0 1) 204 = (204, 0, 7, 255)"
    unfolding candidate_def e unfolding d
    by (simp add: emit_pixel_def prog_eval)
qed


text \<open>The scan of the opaque white pixel, as an instance of the general statement.\<close>

lemma alpha_search_opaque:
  "\<not> maxDiff (255, 255, 255, 255) (0, 0, 0, 255) < threshold
   \<and> (\<exists>j<128. \<exists>r g b al.
        extract_pixel (255, 255, 255, 255) (0, 0, 0, 255) = Some (r, g, b, al)
        \<and> uint r = clampedFg 255 0 (cand (scan_start 255) j)
        \<and> uint al = js_round (fmul (cand (scan_start 255) j) 255))"
proof -
  let ?f = "(255, 255, 255, 255) :: pixel" and ?b = "(0, 0, 0, 255) :: pixel"
  have h: "\<not> maxDiff ?f ?b < threshold"
    by (rule maxDiff_opaque)
  have m: "maxAbsDiff ?f ?b = 255" by (simp add: Let_def)
  from alpha_search[OF h, THEN conjunct2] obtain k j r g b al where
    "j \<le> k" "k < 128" "extract_pixel ?f ?b = Some (r, g, b, al)"
    "uint r = clampedFg (uint (255 :: byte)) (uint (0 :: byte)) (cand (scan_start (maxAbsDiff ?f ?b)) j)"
    "uint al = js_round (fmul (cand (scan_start (maxAbsDiff ?f ?b)) j) 255)"
    by (elim exE conjE) (rule that)
  then have "j < 128" "extract_pixel ?f ?b = Some (r, g, b, al)"
    "uint r = clampedFg 255 0 (cand (scan_start 255) j)"
    "uint al = js_round (fmul (cand (scan_start 255) j) 255)"
    by (simp_all add: m)
  then have "\<exists>j<128. \<exists>r g b al.
        extract_pixel ?f ?b = Some (r, g, b, al)
        \<and> uint r = clampedFg 255 0 (cand (scan_start 255) j)
        \<and> uint al = js_round (fmul (cand (scan_start 255) j) 255)"
    by blast
  with h show ?thesis by (rule conjI)
qed

section \<open>The claims\<close>

text \<open>
  Claim C1, at an opaque \<open>(204, 0, 7)\<close> over black.  The pixel is not background and the
  scan starts at \<open>204 / 255\<close>.  Its candidates are binary64 sums: the twentieth is below 1
  and the next one is above 1, so the scan ends with the twentieth and never examines
  1.0.  The pixel that comes out is \<open>(206, 0, 7)\<close> at alpha byte 252, from that last
  candidate, whose error is positive; the candidate 1.0 has error 0 and would have given
  \<open>(204, 0, 7)\<close> at alpha byte 255.
\<close>

theorem alpha_search_stops_short:
  "\<not> maxDiff (204, 0, 7, 255) (0, 0, 0, 255) < threshold
   \<and> scan_start (maxAbsDiff (204, 0, 7, 255) (0, 0, 0, 255)) = minAlpha 204
   \<and> cand (minAlpha 204) 19 < 1
   \<and> 1 < cand (minAlpha 204) 20
   \<and> scan_pixel (204, 0, 7, 255) (0, 0, 0, 255) =
       Some (candidate 204 0 7 0 0 0 (cand (minAlpha 204) 19))
   \<and> extract_pixel (204, 0, 7, 255) (0, 0, 0, 255) = Some (206, 0, 7, 252)
   \<and> recon_error 204 0 7 0 0 0 1 = 0
   \<and> 0 < recon_error 204 0 7 0 0 0 (cand (minAlpha 204) 19)
   \<and> emit_pixel (candidate 204 0 7 0 0 0 1) 204 = (204, 0, 7, 255)"
proof -
  let ?f = "(204, 0, 7, 255) :: pixel" and ?b = "(0, 0, 0, 255) :: pixel"
  have m: "maxAbsDiff ?f ?b = 204" by (simp add: Let_def)
  have s: "scan_start 204 = minAlpha 204"
    unfolding scan_start_def candidates_from_0_8(1) by (simp add: prog_eval)
  have c: "candidate 204 0 7 0 0 0 (cand (minAlpha 204) 19) =
       \<lparr>bestAlpha = dy 8917127262193584 (- 53),
         bestError = Finite (dy 4683743612463296 (- 55)),
         bestFgR = 206, bestFgG = 0, bestFgB = 7\<rparr>"
    unfolding candidates_from_0_8(2) by (simp add: candidate_def prog_eval)
  have "recon_error 204 0 7 0 0 0 (cand (minAlpha 204) 19) = dy 4683743612463296 (- 55)"
    unfolding candidates_from_0_8(2) by (simp add: prog_eval)
  then have p: "0 < recon_error 204 0 7 0 0 0 (cand (minAlpha 204) 19)"
    by (simp add: dy_def pow2_def)
  have sp: "scan_pixel ?f ?b = Some (candidate 204 0 7 0 0 0 (cand (minAlpha 204) 19))"
    unfolding c by (rule scan_short)
  have s': "scan_start (maxAbsDiff ?f ?b) = minAlpha 204" unfolding m by (rule s)
  from maxDiff_short[of 255 255] s' candidates_from_0_8(3,4) sp extract_short[of 255 255]
    at_one(1) p at_one(2)
  show ?thesis by (intro conjI)
qed

text \<open>
  Claim C2.  A pixel pair whose largest difference over the four channels is below 5 is
  pure background and becomes \<open>(0, 0, 0, 0)\<close>; so does every pixel compared with itself,
  and every pair that differs by exactly 4 in each channel.  A pair whose largest
  difference is exactly 5 is not background: its output is the result of the alpha scan.
\<close>

theorem background_classification:
  "(maxDiff full bg < 5 \<longrightarrow> extract_pixel full bg = Some (0, 0, 0, 0))
   \<and> extract_pixel p p = Some (0, 0, 0, 0)
   \<and> (\<bar>uint r4 - uint r4'\<bar> = 4 \<and> \<bar>uint g4 - uint g4'\<bar> = 4
        \<and> \<bar>uint b4 - uint b4'\<bar> = 4 \<and> \<bar>uint a4 - uint a4'\<bar> = 4
      \<longrightarrow> maxDiff (r4, g4, b4, a4) (r4', g4', b4', a4') < threshold
          \<and> extract_pixel (r4, g4, b4, a4) (r4', g4', b4', a4') = Some (0, 0, 0, 0))
   \<and> (maxDiff full5 bg5 = 5
      \<longrightarrow> \<not> maxDiff full5 bg5 < threshold
          \<and> extract_pixel full5 bg5 =
              map_option (\<lambda>st. emit_pixel st (maxAbsDiff full5 bg5)) (scan_pixel full5 bg5))"
proof -
  have same: "maxDiff p p = 0"
    by (cases p) (simp add: Let_def)
  show ?thesis
    unfolding extract_pixel_def threshold_def
    by (auto simp: same Let_def split: option.splits)
qed

theorem background_classification_witness:
  "maxDiff (10, 20, 30, 255) (12, 17, 30, 255) < 5
   \<and> extract_pixel (10, 20, 30, 255) (12, 17, 30, 255) = Some (0, 0, 0, 0)
   \<and> \<bar>uint (10 :: byte) - uint (14 :: byte)\<bar> = 4
   \<and> \<bar>uint (20 :: byte) - uint (16 :: byte)\<bar> = 4
   \<and> \<bar>uint (30 :: byte) - uint (34 :: byte)\<bar> = 4
   \<and> \<bar>uint (255 :: byte) - uint (251 :: byte)\<bar> = 4
   \<and> extract_pixel (10, 20, 30, 255) (14, 16, 34, 251) = Some (0, 0, 0, 0)
   \<and> maxDiff (10, 20, 30, 255) (15, 20, 30, 255) = 5
   \<and> \<not> maxDiff (10, 20, 30, 255) (15, 20, 30, 255) < threshold"
  using background_classification
    [of "(10, 20, 30, 255)" "(12, 17, 30, 255)" p 10 14 20 16 30 34 255 251
        "(10, 20, 30, 255)" "(15, 20, 30, 255)"]
  by (simp add: Let_def)

text \<open>
  Claim C3, as the code has it.  For \<open>C\<^sub>f\<^sub>u\<^sub>l\<^sub>l = (222, 173, 182)\<close> over
  \<open>C\<^sub>b\<^sub>g = (255, 255, 255)\<close> the scan starts at \<open>82 / 255\<close>, no candidate reaches an error
  below 0.1, and the first candidate has the least error of the 68 candidates (about
  0.1255).  The pixel is \<open>(152, 0, 28)\<close> with alpha byte 82, whatever the input alpha
  bytes are: a colour and an alpha that recompose to the full image, but not the
  \<open>(200, 50, 100)\<close> at alpha 153 the composite was made from.
\<close>

theorem round_trip_example:
  "extract_pixel (222, 173, 182, a) (255, 255, 255, b) = Some (152, 0, 28, 82)
   \<and> map_option bestAlpha (scan_pixel (222, 173, 182, a) (255, 255, 255, b))
       = Some (minAlpha 82)
   \<and> (\<exists>e. map_option bestError (scan_pixel (222, 173, 182, a) (255, 255, 255, b))
            = Some (Finite e) \<and> 1 / 10 < e \<and> e < 126 / 1000)"
proof -
  have "minAlpha 82 = dy 5792865403049109 (- 54)"
    by (simp add: prog_eval)
  moreover have "1 / 10 < dy 4521260802379776 (- 55)" "dy 4521260802379776 (- 55) < 126 / 1000"
    by (simp_all add: dy_def pow2_def)
  ultimately show ?thesis
    by (simp add: extract_example scan_example del: scan_pixel.simps)
qed

text \<open>
  Claim C3 as stated fails: the extracted pixel is not within 1 of \<open>(200, 50, 100)\<close>
  nor its alpha within 3 of 153.
\<close>

theorem round_trip_counterexample:
  "\<not> (\<exists>r g b a. extract_pixel (222, 173, 182, 255) (255, 255, 255, 255) = Some (r, g, b, a)
        \<and> \<bar>uint r - 200\<bar> \<le> 1 \<and> \<bar>uint g - 50\<bar> \<le> 1 \<and> \<bar>uint b - 100\<bar> \<le> 1
        \<and> \<bar>uint a - 153\<bar> \<le> 3)"
  by (simp add: extract_example)




text \<open>
  Claim C5.  When the widths or the heights differ, the result is the size-mismatch
  error with the four dimensions and there is no output raster; equal dimensions (of
  well-formed rasters) never give an error: the result is an output raster.
\<close>

theorem dimension_mismatch:
  "(width full \<noteq> width bg \<or> height full \<noteq> height bg \<longrightarrow>
      extractForeground full bg =
        Some (Inl (SizeMismatch (width full) (height full) (width bg) (height bg))))
   \<and> (wf_raster full' \<and> wf_raster bg' \<and> width full' = width bg' \<and> height full' = height bg' \<longrightarrow>
      (\<exists>out. extractForeground full' bg' = Some (Inr out)))"
proof (intro conjI impI)
  assume "width full \<noteq> width bg \<or> height full \<noteq> height bg"
  then show "extractForeground full bg =
      Some (Inl (SizeMismatch (width full) (height full) (width bg) (height bg)))"
    by (simp add: extractForeground_def)
next
  assume "wf_raster full' \<and> wf_raster bg' \<and> width full' = width bg' \<and> height full' = height bg'"
  then show "\<exists>out. extractForeground full' bg' = Some (Inr out)"
    using extractForeground_result[of full' bg'] by blast
qed

theorem dimension_mismatch_witness:
  "height \<lparr>width = 10, height = 10, data = replicate 400 0\<rparr>
     \<noteq> height \<lparr>width = 10, height = 11, data = replicate 440 0\<rparr>
   \<and> extractForeground \<lparr>width = 10, height = 10, data = replicate 400 0\<rparr>
        \<lparr>width = 10, height = 11, data = replicate 440 0\<rparr>
      = Some (Inl (SizeMismatch 10 10 10 11))
   \<and> wf_raster \<lparr>width = 1, height = 1, data = [1, 2, 3, 255]\<rparr>
   \<and> wf_raster \<lparr>width = 1, height = 1, data = [1, 2, 4, 255]\<rparr>
   \<and> (\<exists>out. extractForeground \<lparr>width = 1, height = 1, data = [1, 2, 3, 255]\<rparr>
          \<lparr>width = 1, height = 1, data = [1, 2, 4, 255]\<rparr> = Some (Inr out))"
  using dimension_mismatch
    [of "\<lparr>width = 10, height = 10, data = replicate 400 0\<rparr>"
        "\<lparr>width = 10, height = 11, data = replicate 440 0\<rparr>"
        "\<lparr>width = 1, height = 1, data = [1, 2, 3, 255]\<rparr>"
        "\<lparr>width = 1, height = 1, data = [1, 2, 4, 255]\<rparr>"]
  by (simp add: wf_raster_def)

text \<open>
  Claim C6.  With a black background and a white full image the scan starts at
  \<open>255 / 255 = 1\<close>, its only candidate reconstructs exactly, and the pixel is the opaque
  white \<open>(255, 255, 255, 255)\<close>, whatever the two input alpha bytes are.
\<close>

theorem opaque_foreground:
  "scan_start (maxAbsDiff (255, 255, 255, a) (0, 0, 0, b)) = 1
   \<and> map_option bestAlpha (scan_pixel (255, 255, 255, a) (0, 0, 0, b)) = Some 1
   \<and> extract_pixel (255, 255, 255, a) (0, 0, 0, b) = Some (255, 255, 255, 255)"
proof -
  have "scan_start (maxAbsDiff (255, 255, 255, a) (0, 0, 0, b)) = dy 4503599627370496 (- 52)"
    by (simp add: prog_eval)
  then have "scan_start (maxAbsDiff (255, 255, 255, a) (0, 0, 0, b)) = 1"
    by (simp add: dy_def pow2_def)
  moreover have "extract_pixel (255, 255, 255, a) (0, 0, 0, b) = Some (255, 255, 255, 255)"
    unfolding extract_pixel_def
    by (simp add: maxDiff_opaque scan_opaque emit_pixel_def prog_eval
          del: maxDiff.simps scan_pixel.simps)
  ultimately show ?thesis
    by (simp add: scan_opaque del: maxAbsDiff.simps scan_pixel.simps)
qed

text \<open>
  Claim C7.  The output pixel at index \<open>i\<close> is a function of the input pixel pair at
  index \<open>i\<close> alone: two runs (on rasters of any dimensions) that agree on the pair at
  \<open>i\<close> agree on the output pixel at \<open>i\<close>, whatever the other pixels are; and equal
  inputs give equal outputs.
\<close>

theorem per_pixel_independence:
  assumes "wf_raster full1" "wf_raster bg1"
    and "width full1 = width bg1" "height full1 = height bg1"
    and "wf_raster full2" "wf_raster bg2"
    and "width full2 = width bg2" "height full2 = height bg2"
    and "extractForeground full1 bg1 = Some (Inr out1)"
    and "extractForeground full2 bg2 = Some (Inr out2)"
    and "i < width full1 * height full1" "i < width full2 * height full2"
    and "pixel_at (data full1) i = pixel_at (data full2) i"
    and "pixel_at (data bg1) i = pixel_at (data bg2) i"
  shows "pixel_at (data out1) i = pixel_at (data out2) i
    \<and> Some (pixel_at (data out1) i) = extract_pixel (pixel_at (data full1) i) (pixel_at (data bg1) i)
    \<and> (full1 = full2 \<and> bg1 = bg2 \<longrightarrow> out1 = out2)"
proof -
  obtain o1 where o1: "extractForeground full1 bg1 = Some (Inr o1)"
    "\<forall>j < width full1 * height full1.
        Some (pixel_at (data o1) j) =
          extract_pixel (pixel_at (data full1) j) (pixel_at (data bg1) j)"
    using extractForeground_result[OF assms(1-4)] by blast
  have "o1 = out1" using o1(1) assms(9) by simp
  then have 1: "Some (pixel_at (data out1) i) =
      extract_pixel (pixel_at (data full1) i) (pixel_at (data bg1) i)"
    using o1(2) assms(11) by blast
  obtain o2 where o2: "extractForeground full2 bg2 = Some (Inr o2)"
    "\<forall>j < width full2 * height full2.
        Some (pixel_at (data o2) j) =
          extract_pixel (pixel_at (data full2) j) (pixel_at (data bg2) j)"
    using extractForeground_result[OF assms(5-8)] by blast
  have "o2 = out2" using o2(1) assms(10) by simp
  then have 2: "Some (pixel_at (data out2) i) =
      extract_pixel (pixel_at (data full2) i) (pixel_at (data bg2) i)"
    using o2(2) assms(12) by blast
  have "Some (pixel_at (data out1) i) = Some (pixel_at (data out2) i)"
    by (simp only: 1 2 assms(13,14))
  then have 3: "pixel_at (data out1) i = pixel_at (data out2) i" by simp
  have 4: "full1 = full2 \<and> bg1 = bg2 \<longrightarrow> out1 = out2"
    using assms(9,10) by auto
  from 3 1 4 show ?thesis by blast
qed

theorem per_pixel_independence_witness:
  "wf_raster \<lparr>width = 2, height = 1, data = [255, 255, 255, 255, 5, 5, 5, 255]\<rparr>
   \<and> wf_raster \<lparr>width = 2, height = 1, data = [0, 0, 0, 255, 5, 5, 5, 255]\<rparr>
   \<and> wf_raster \<lparr>width = 2, height = 1, data = [255, 255, 255, 255, 255, 255, 255, 255]\<rparr>
   \<and> wf_raster \<lparr>width = 2, height = 1, data = [0, 0, 0, 255, 0, 0, 0, 255]\<rparr>
   \<and> extractForeground
         \<lparr>width = 2, height = 1, data = [255, 255, 255, 255, 5, 5, 5, 255]\<rparr>
         \<lparr>width = 2, height = 1, data = [0, 0, 0, 255, 5, 5, 5, 255]\<rparr>
       = Some (Inr \<lparr>width = 2, height = 1, data = [255, 255, 255, 255, 0, 0, 0, 0]\<rparr>)
   \<and> extractForeground
         \<lparr>width = 2, height = 1, data = [255, 255, 255, 255, 255, 255, 255, 255]\<rparr>
         \<lparr>width = 2, height = 1, data = [0, 0, 0, 255, 0, 0, 0, 255]\<rparr>
       = Some (Inr \<lparr>width = 2, height = 1, data = [255, 255, 255, 255, 255, 255, 255, 255]\<rparr>)
   \<and> pixel_at [255, 255, 255, 255, 5, 5, 5, 255] 0
       = pixel_at [255, 255, 255, 255, 255, 255, 255, 255] 0
   \<and> pixel_at [0, 0, 0, 255, 5, 5, 5, 255] 0 = pixel_at [0, 0, 0, 255, 0, 0, 0, 255] 0
   \<and> pixel_at [255, 255, 255, 255, 0, 0, 0, 0] 0
       = pixel_at [255, 255, 255, 255, 255, 255, 255, 255] 0"
proof -
  let ?f1 = "\<lparr>width = 2, height = 1, data = [255, 255, 255, 255, 5, 5, 5, 255]\<rparr>"
  let ?b1 = "\<lparr>width = 2, height = 1, data = [0, 0, 0, 255, 5, 5, 5, 255]\<rparr>"
  let ?f2 = "\<lparr>width = 2, height = 1, data = [255, 255, 255, 255, 255, 255, 255, 255]\<rparr>"
  let ?b2 = "\<lparr>width = 2, height = 1, data = [0, 0, 0, 255, 0, 0, 0, 255]\<rparr>"
  let ?o1 = "\<lparr>width = 2, height = 1, data = [255, 255, 255, 255, 0, 0, 0, 0]\<rparr>"
  let ?o2 = "\<lparr>width = 2, height = 1, data = [255, 255, 255, 255, 255, 255, 255, 255]\<rparr>"
  have wf: "wf_raster ?f1" "wf_raster ?b1" "wf_raster ?f2" "wf_raster ?b2"
    by (simp_all add: wf_raster_def)
  have eq: "pixel_at (data ?f1) 0 = pixel_at (data ?f2) 0"
      "pixel_at (data ?b1) 0 = pixel_at (data ?b2) 0"
    by (simp_all add: pixel_at_def)
  have "pixel_at (data ?o1) 0 = pixel_at (data ?o2) 0"
    using per_pixel_independence[OF wf(1,2) _ _ wf(3,4) _ _ run_example_1 run_example_2 _ _ eq]
    by simp
  then show ?thesis using wf eq run_example_1 run_example_2 by simp
qed

text \<open>
  Claim C8.  On well-formed rasters of equal dimensions the extraction returns: the
  result is an output raster of the same width and height whose buffer has all its
  \<open>width \<sqdot> height \<sqdot> 4\<close> bytes, every pixel of it being the extracted pixel.  The scan of
  any pixel pair starts at a candidate that is at most 1, so it runs the loop body at
  least once, and it stops after at most 128 candidates.
\<close>

theorem extraction_total:
  assumes "wf_raster full" "wf_raster bg"
    and "width full = width bg" "height full = height bg"
  shows "(\<exists>out. extractForeground full bg = Some (Inr out)
      \<and> width out = width full \<and> height out = height full
      \<and> length (data out) = width full * height full * 4
      \<and> (\<forall>j < width full * height full.
            extract_pixel (pixel_at (data full) j) (pixel_at (data bg) j)
              = Some (pixel_at (data out) j)))
    \<and> scan_start (maxAbsDiff (fR, fG, fB, fA) (bR, bG, bB, bA)) \<le> 1
    \<and> (\<exists>k<128. scan_pixel (fR, fG, fB, fA) (bR, bG, bB, bA) =
          Some (scan_upto (uint fR) (uint fG) (uint fB) (uint bR) (uint bG) (uint bB)
            (scan_start (maxAbsDiff (fR, fG, fB, fA) (bR, bG, bB, bA)))
            (scan_init (scan_start (maxAbsDiff (fR, fG, fB, fA) (bR, bG, bB, bA)))) k))"
proof -
  let ?a = "scan_start (maxAbsDiff (fR, fG, fB, fA) (bR, bG, bB, bA))"
  have r: "0 < ?a" "?a \<le> 1"
    by (rule scan_start_range[OF maxAbsDiff_range])+
  obtain k where k: "\<forall>n\<le>k. cand ?a n \<le> 1"
    "scan_pixel (fR, fG, fB, fA) (bR, bG, bB, bA) =
      Some (scan_upto (uint fR) (uint fG) (uint fB) (uint bR) (uint bG) (uint bB) ?a
        (scan_init ?a) k)"
    using scan_pixel_result[of fR fG fB fA bR bG bB bA] by blast
  have "k < 128" using cand_count[OF r(1) k(1)] .
  then have 3: "\<exists>k<128. scan_pixel (fR, fG, fB, fA) (bR, bG, bB, bA) =
      Some (scan_upto (uint fR) (uint fG) (uint fB) (uint bR) (uint bG) (uint bB) ?a
        (scan_init ?a) k)"
    using k(2) by blast
  obtain out where out: "extractForeground full bg = Some (Inr out)"
    "width out = width full" "height out = height full" "wf_raster out"
    "\<forall>j < width full * height full.
        Some (pixel_at (data out) j) =
          extract_pixel (pixel_at (data full) j) (pixel_at (data bg) j)"
    using extractForeground_result[OF assms] by blast
  have "length (data out) = width full * height full * 4"
    using out(2,3,4) by (simp add: wf_raster_def)
  then have 1: "\<exists>out. extractForeground full bg = Some (Inr out)
      \<and> width out = width full \<and> height out = height full
      \<and> length (data out) = width full * height full * 4
      \<and> (\<forall>j < width full * height full.
            extract_pixel (pixel_at (data full) j) (pixel_at (data bg) j)
              = Some (pixel_at (data out) j))"
    using out by (intro exI[of _ out]) simp
  from 1 r(2) 3 show ?thesis by blast
qed

theorem extraction_total_witness:
  "wf_raster \<lparr>width = 2, height = 1, data = [255, 255, 255, 255, 5, 5, 5, 255]\<rparr>
   \<and> wf_raster \<lparr>width = 2, height = 1, data = [0, 0, 0, 255, 5, 5, 5, 255]\<rparr>
   \<and> (\<exists>out. extractForeground
          \<lparr>width = 2, height = 1, data = [255, 255, 255, 255, 5, 5, 5, 255]\<rparr>
          \<lparr>width = 2, height = 1, data = [0, 0, 0, 255, 5, 5, 5, 255]\<rparr> = Some (Inr out)
        \<and> width out = 2 \<and> height out = 1 \<and> length (data out) = 8)"
proof -
  let ?f1 = "\<lparr>width = 2, height = 1, data = [255, 255, 255, 255, 5, 5, 5, 255]\<rparr>"
  let ?b1 = "\<lparr>width = 2, height = 1, data = [0, 0, 0, 255, 5, 5, 5, 255]\<rparr>"
  have wf: "wf_raster ?f1" "wf_raster ?b1"
    by (simp_all add: wf_raster_def)
  from extraction_total[OF wf, of 0 0 0 0 0 0 0 0] wf show ?thesis
    by auto
qed

text \<open>
  Claim C9, as the code has it.  When the three colours are equal and the two alpha
  bytes differ by 5 or more, the pixel is not background, \<open>maxAbsDiff\<close> is 0, the scan
  starts at 0.01, and this first candidate recovers the colours and reconstructs them
  with an error of at most \<open>2\<^sup>-\<^sup>4\<^sup>0\<close>, below 0.1, so the scan stops there.  The pixel is the
  background colour at alpha byte 3.
\<close>

theorem alpha_only_difference:
  fixes r g b fa ba :: byte
  assumes "5 \<le> \<bar>uint fa - uint ba\<bar>"
  shows "\<not> maxDiff (r, g, b, fa) (r, g, b, ba) < threshold
    \<and> maxAbsDiff (r, g, b, fa) (r, g, b, ba) = 0
    \<and> scan_start (maxAbsDiff (r, g, b, fa) (r, g, b, ba)) = lit_0_01
    \<and> recon_error (uint r) (uint g) (uint b) (uint r) (uint g) (uint b) lit_0_01 \<le> 1 / 2 ^ 40
    \<and> recon_error (uint r) (uint g) (uint b) (uint r) (uint g) (uint b) lit_0_01 < lit_0_1
    \<and> scan_pixel (r, g, b, fa) (r, g, b, ba) =
        Some \<lparr>bestAlpha = lit_0_01,
              bestError = Finite (recon_error (uint r) (uint g) (uint b) (uint r) (uint g) (uint b)
                                    lit_0_01),
              bestFgR = uint r, bestFgG = uint g, bestFgB = uint b\<rparr>
    \<and> extract_pixel (r, g, b, fa) (r, g, b, ba) = Some (r, g, b, 3)"
proof -
  let ?E = "recon_error (uint r) (uint g) (uint b) (uint r) (uint g) (uint b) lit_0_01"
  have nb: "\<not> maxDiff (r, g, b, fa) (r, g, b, ba) < threshold"
    using assms by (simp add: threshold_def Let_def)
  have mad: "maxAbsDiff (r, g, b, fa) (r, g, b, ba) = 0" by (simp add: Let_def)
  have al: "1 / 128 \<le> lit_0_01" "lit_0_01 \<le> 1" using lit_0_01_bounds by linarith+
  have e: "?E \<le> 1 / 2 ^ 40"
    by (rule same_colour_error[OF al]) (rule uint_byte_range)+
  moreover have "(1::rat) / 2 ^ 40 < 99 / 1000" by simp
  ultimately have lt: "?E < lit_0_1" using lit_0_1_bounds(1) by linarith
  have c: "clampedFg (uint x) (uint x) lit_0_01 = uint x" for x :: byte
    by (rule same_colour_channel(1)[OF al uint_byte_range])
  have sp: "scan_pixel (r, g, b, fa) (r, g, b, ba) =
        Some \<lparr>bestAlpha = lit_0_01, bestError = Finite ?E,
              bestFgR = uint r, bestFgG = uint g, bestFgB = uint b\<rparr>"
    unfolding scan_pixel.simps mad scan_start_0
    by (simp add: alpha_scan_exit[OF al(2) lt] scan_step_def scan_init_def c)
  have "\<not> error_greater (Finite ?E) 30" using e by simp
  then have "extract_pixel (r, g, b, fa) (r, g, b, ba) = Some (r, g, b, 3)"
    unfolding extract_pixel_foreground[OF nb] sp mad
    by (simp add: emit_pixel_def alpha_byte_0_01)
  then show ?thesis using nb mad e lt sp by (simp only: scan_start_0) simp
qed

theorem alpha_only_difference_witness:
  "5 \<le> \<bar>uint (255 :: byte) - uint (0 :: byte)\<bar>
   \<and> extract_pixel (10, 20, 30, 255) (10, 20, 30, 0) = Some (10, 20, 30, 3)"
proof -
  have h: "5 \<le> \<bar>uint (255 :: byte) - uint (0 :: byte)\<bar>" by simp
  from alpha_only_difference[OF h, of 10 20 30] h show ?thesis by blast
qed

text \<open>
  Claim C9 as stated fails in one detail: the error of the first candidate is not always
  exactly 0.  For the colour \<open>(3, 0, 0)\<close> it is \<open>2\<^sup>-\<^sup>5\<^sup>1\<close>: in binary64 arithmetic
  \<open>0.01 \<sqdot> 3 + 0.99 \<sqdot> 3\<close> is not 3.
\<close>

theorem alpha_only_difference_counterexample:
  "5 \<le> \<bar>uint (255 :: byte) - uint (0 :: byte)\<bar>
   \<and> scan_start (maxAbsDiff (3, 0, 0, 255) (3, 0, 0, 0)) = lit_0_01
   \<and> recon_error (uint (3 :: byte)) (uint (0 :: byte)) (uint (0 :: byte))
         (uint (3 :: byte)) (uint (0 :: byte)) (uint (0 :: byte)) lit_0_01 = 1 / 2 ^ 51
   \<and> recon_error (uint (3 :: byte)) (uint (0 :: byte)) (uint (0 :: byte))
         (uint (3 :: byte)) (uint (0 :: byte)) (uint (0 :: byte)) lit_0_01 \<noteq> 0"
proof -
  have "recon_error 3 0 0 3 0 0 lit_0_01 = dy 4503599627370496 (- 103)"
    by (simp add: prog_eval)
  also have "\<dots> = 1 / 2 ^ 51" by (simp add: dy_def pow2_def)
  finally have "recon_error 3 0 0 3 0 0 lit_0_01 = 1 / 2 ^ 51" .
  then show ?thesis by (simp add: scan_start_0 Let_def)
qed

text \<open>
  Claim C10, at two thin images.  For an image of 1000 by 5 pixels the box is 264 by 1
  and the offsets are 84 and 216; the resize, fitting inside that box, returns 200 by 1,
  which is composited at the offsets computed for 264 by 1: 84 transparent columns on
  its left and 148 on its right.  For an image of 1000 by 1 pixels the scaled height
  rounds to 0, the resize refuses it, and nothing is composited.
\<close>

theorem safe_area_fit_thin:
  "prepareForAndroidAdaptiveIcon 1000 5 =
     Inr \<lparr>canvasWidth = 432, canvasHeight = 432, canvasChannels = 4,
          canvasBackground = (0, 0, 0, 0), scaledWidth = 264, scaledHeight = 1,
          overlayWidth = 200, overlayHeight = 1, left_px = 84, top_px = 216\<rparr>
   \<and> map_sum id right_margin (prepareForAndroidAdaptiveIcon 1000 5) = Inr 148
   \<and> prepareForAndroidAdaptiveIcon 1000 1 = Inl (InvalidParameter ''height'' 0)"
  unfolding fit_thin(1,2) by (simp add: right_margin_def)
end
